theory Spec2Isabelle
  imports Main "HOL-Library.Word" "HOL-Library.Monad_Syntax"
begin

unbundle bit_operations_syntax

section \<open>Data model\<close>

text \<open>
  The codecs work on caller-owned buffers.  An output buffer is modelled as a
  total map from byte offsets (relative to the \<open>out\<close> pointer of the call) to
  bytes; pointers into the buffer (\<open>key_ptr\<close>, \<open>data_ptr\<close>, the returned
  past-the-end pointer) are offsets of type \<open>nat\<close>.  The input array \<open>in\<close> of
  \<open>count\<close> elements is a list, and \<open>count\<close> is its length.  The host is
  little-endian (the x64 routines assume it, the generic ones write the
  bytes one by one in little-endian order).
\<close>

type_synonym byte = "8 word"
type_synonym u16 = "16 word"
type_synonym u32 = "32 word"
type_synonym u64 = "64 word"
type_synonym mem = "nat \<Rightarrow> byte"

definition store_bytes :: "mem \<Rightarrow> nat \<Rightarrow> byte list \<Rightarrow> mem" where
  "store_bytes m p bs = (\<lambda>i. if p \<le> i \<and> i < p + length bs then bs ! (i - p) else m i)"

definition load_bytes :: "mem \<Rightarrow> nat \<Rightarrow> nat \<Rightarrow> byte list" where
  "load_bytes m p n = map m [p ..< p + n]"

definition le_bytes16 :: "u16 \<Rightarrow> byte list" where
  "le_bytes16 v = [ucast v, ucast (drop_bit 8 v)]"

definition le_bytes32 :: "u32 \<Rightarrow> byte list" where
  "le_bytes32 v = [ucast v, ucast (drop_bit 8 v), ucast (drop_bit 16 v), ucast (drop_bit 24 v)]"

text \<open>\<open>svb_storeu_u16\<close>, \<open>svb_storeu_u32\<close>: \<open>memcpy\<close> of the word to \<open>dst\<close>.\<close>

definition svb_storeu_u16 :: "mem \<Rightarrow> nat \<Rightarrow> u16 \<Rightarrow> mem" where
  "svb_storeu_u16 m dst src = store_bytes m dst (le_bytes16 src)"

definition svb_storeu_u32 :: "mem \<Rightarrow> nat \<Rightarrow> u32 \<Rightarrow> mem" where
  "svb_storeu_u32 m dst src = store_bytes m dst (le_bytes32 src)"

section \<open>Bounds (svb\_internal.h, svb.h)\<close>

text \<open>
  \<open>count\<close> is a \<open>size_t\<close>.  An array of \<open>count\<close> four-byte elements lies in a
  64-bit address space, so \<open>count + 3\<close> and \<open>count << 2\<close> do not wrap and are
  written on \<open>nat\<close>.
\<close>

definition svb_key_block_len :: "nat \<Rightarrow> nat" where
  "svb_key_block_len count = (count + 3) div 4"

definition streamvbyte_compress_bound :: "nat \<Rightarrow> nat" where
  "streamvbyte_compress_bound count =
     (let key_len = svb_key_block_len count; data_len_max = count * 4
      in key_len + data_len_max)"

section \<open>Filters (svb\_internal.h)\<close>

definition zigzag_encode_32 :: "u32 \<Rightarrow> u32" where
  "zigzag_encode_32 val = (val + val) XOR signed_drop_bit 31 val"

definition zigzag_decode_32 :: "u32 \<Rightarrow> u32" where
  "zigzag_decode_32 val = drop_bit 1 val XOR - (val AND 1)"

definition delta_encode_32 :: "u32 \<Rightarrow> u32 \<Rightarrow> u32" where
  "delta_encode_32 val previous = val - previous"

definition delta_decode_32 :: "u32 \<Rightarrow> u32 \<Rightarrow> u32" where
  "delta_decode_32 val previous = val + previous"

definition delta_zigzag_encode_32 :: "u32 \<Rightarrow> u32 \<Rightarrow> u32" where
  "delta_zigzag_encode_32 val previous = zigzag_encode_32 (delta_encode_32 val previous)"

definition delta_zigzag_decode_32 :: "u32 \<Rightarrow> u32 \<Rightarrow> u32" where
  "delta_zigzag_decode_32 val previous = delta_decode_32 (zigzag_decode_32 val) previous"

section \<open>Key derivation as the format tables state it\<close>

text \<open>
  The key and payload width of a value, written from the format description
  (not from the code): SVB1 stores 1 to 4 bytes under keys 0 to 3, SVB0 stores
  0, 1, 2 or 4 bytes under keys 0 to 3.
\<close>

definition svb1_key_spec :: "u32 \<Rightarrow> nat" where
  "svb1_key_spec v = (if v \<le> 0xFF then 0 else if v \<le> 0xFFFF then 1 else if v \<le> 0xFFFFFF then 2 else 3)"

definition svb1_len_spec :: "u32 \<Rightarrow> nat" where
  "svb1_len_spec v = svb1_key_spec v + 1"

definition svb0_key_spec :: "u32 \<Rightarrow> nat" where
  "svb0_key_spec v = (if v = 0 then 0 else if v \<le> 0xFF then 1 else if v \<le> 0xFFFF then 2 else 3)"

definition svb0_len_spec :: "u32 \<Rightarrow> nat" where
  "svb0_len_spec v = [0, 1, 2, 4] ! svb0_key_spec v"

section \<open>Scalar encode steps\<close>

subsection \<open>svb1\_enc.c\<close>

text \<open>\<open>_svb1_encode1_x64\<close>: stores the word, returns the 2-bit code.\<close>

definition svb1_encode1_x64 :: "mem \<Rightarrow> nat \<Rightarrow> u32 \<Rightarrow> mem \<times> u32" where
  "svb1_encode1_x64 m dst dw0 =
     (let m' = svb_storeu_u32 m dst dw0;
          dw = drop_bit 8 dw0;
          a = dw + 0x00FFFF00;
          b = dw AND 0x00FF0000;
          a = a OR 0x00FFFFFF;
          dw = dw + a;
          dw = dw OR 0x00FFFFFF;
          dw = dw + b;
          dw = drop_bit 24 dw
      in (m', dw))"

text \<open>\<open>_svb1_encode1_generic\<close>: \<open>dst[2]\<close> and \<open>dst[3]\<close> are written only when
  the upper half of the word is not zero.\<close>

definition svb1_encode1_generic :: "mem \<Rightarrow> nat \<Rightarrow> u32 \<Rightarrow> mem \<times> byte" where
  "svb1_encode1_generic m dst dw0 =
     (let code = (if dw0 > 0xFF then 1 else 0);
          m = m(dst := ucast dw0);
          m = m(dst + 1 := ucast (drop_bit 8 dw0));
          dw = drop_bit 16 dw0
      in if dw \<noteq> 0
         then (let code = code + (1 + (if dw > 0xFF then 1 else 0));
                   m = m(dst + 2 := ucast dw);
                   m = m(dst + 3 := ucast (drop_bit 8 dw))
               in (m, code))
         else (m, code))"

subsection \<open>svb0\_enc.c\<close>

text \<open>
  The macro \<open>SVB0_ENCODE1(keys, data_ptr, val, shift)\<close> updates \<open>keys\<close> (a
  \<open>uint32_t\<close> at every call site) and \<open>data_ptr\<close>; \<open>k\<close> is a \<open>size_t\<close>, so
  \<open>keys |= k << shift\<close> is computed on 64 bits and truncated.
\<close>

definition SVB0_ENCODE1 :: "mem \<Rightarrow> u32 \<Rightarrow> nat \<Rightarrow> u32 \<Rightarrow> nat \<Rightarrow> mem \<times> u32 \<times> nat" where
  "SVB0_ENCODE1 m keys data_ptr val shift =
     (let x = val;
          m = svb_storeu_u32 m data_ptr x;
          k = (if x \<noteq> 0 then 1 else 0) + (if x > 0x000000FF then 1 else 0)
                + (if x > 0x0000FFFF then 1 else (0::u64));
          data_ptr = data_ptr + unat (k + (if x > 0x0000FFFF then 1 else 0));
          keys = ucast (ucast keys OR push_bit shift k)
      in (m, keys, data_ptr))"

text \<open>\<open>_svb0_encode1_generic\<close>: returns the code and, through \<open>len\<close>, the
  payload width.\<close>

definition svb0_encode1_generic :: "mem \<Rightarrow> nat \<Rightarrow> u32 \<Rightarrow> mem \<times> byte \<times> nat" where
  "svb0_encode1_generic m dst dw0 =
     (let m = m(dst := ucast dw0);
          m = m(dst + 1 := ucast (drop_bit 8 dw0))
      in if dw0 \<le> 0x0000FFFF
         then (let code = (if dw0 \<noteq> 0 then 1 else 0) + (if dw0 > 0xFF then 1 else 0)
               in (m, code, unat code))
         else (let dw = drop_bit 16 dw0;
                   m = m(dst + 2 := ucast dw);
                   m = m(dst + 3 := ucast (drop_bit 8 dw))
               in (m, 3, 4)))"

section \<open>SSE registers and intrinsics\<close>

text \<open>
  An \<open>__m128i\<close> is the list of its 16 bytes in memory order (byte 0 first).
  The 16-, 32- and 64-bit lanes are little-endian groups of these bytes.
  Each intrinsic the encoders use is written as Intel documents it.
\<close>

type_synonym m128i = "byte list"

definition u16_of :: "byte \<Rightarrow> byte \<Rightarrow> u16" where
  "u16_of b0 b1 = ucast b0 OR push_bit 8 (ucast b1)"

definition u32_of :: "byte \<Rightarrow> byte \<Rightarrow> byte \<Rightarrow> byte \<Rightarrow> u32" where
  "u32_of b0 b1 b2 b3 =
     ucast b0 OR push_bit 8 (ucast b1) OR push_bit 16 (ucast b2) OR push_bit 24 (ucast b3)"

fun epi16 :: "m128i \<Rightarrow> u16 list" where
  "epi16 (b0 # b1 # bs) = u16_of b0 b1 # epi16 bs"
| "epi16 bs = []"

fun epi32 :: "m128i \<Rightarrow> u32 list" where
  "epi32 (b0 # b1 # b2 # b3 # bs) = u32_of b0 b1 b2 b3 # epi32 bs"
| "epi32 bs = []"

definition of_epi16 :: "u16 list \<Rightarrow> m128i" where
  "of_epi16 ws = concat (map le_bytes16 ws)"

definition of_epi32 :: "u32 list \<Rightarrow> m128i" where
  "of_epi32 ws = concat (map le_bytes32 ws)"

text \<open>\<open>_mm_loadu_si128((__m128i*)&in[i])\<close> on an array of 32-bit words, and
  on a byte table.\<close>

definition mm_loadu_si128_u32 :: "u32 list \<Rightarrow> nat \<Rightarrow> m128i" where
  "mm_loadu_si128_u32 xs i = of_epi32 [xs ! i, xs ! (i + 1), xs ! (i + 2), xs ! (i + 3)]"

definition mm_loadu_si128_u8 :: "byte list \<Rightarrow> nat \<Rightarrow> m128i" where
  "mm_loadu_si128_u8 tab i = take 16 (drop i tab)"

definition mm_storeu_si128 :: "mem \<Rightarrow> nat \<Rightarrow> m128i \<Rightarrow> mem" where
  "mm_storeu_si128 m p v = store_bytes m p v"

definition mm_setzero_si128 :: m128i where
  "mm_setzero_si128 = replicate 16 0"

definition mm_set1_epi8 :: "byte \<Rightarrow> m128i" where
  "mm_set1_epi8 b = replicate 16 b"

definition mm_set1_epi16 :: "u16 \<Rightarrow> m128i" where
  "mm_set1_epi16 w = of_epi16 (replicate 8 w)"

definition mm_set1_epi32 :: "u32 \<Rightarrow> m128i" where
  "mm_set1_epi32 w = of_epi32 (replicate 4 w)"

definition mm_min_epu8 :: "m128i \<Rightarrow> m128i \<Rightarrow> m128i" where
  "mm_min_epu8 a b = map2 min a b"

text \<open>Signed saturation of a 16-bit lane to an unsigned byte, and of a 32-bit
  lane to an unsigned 16-bit word.\<close>

definition packus16 :: "u16 \<Rightarrow> byte" where
  "packus16 w = (if sint w < 0 then 0 else if sint w > 255 then 255 else ucast w)"

definition packus32 :: "u32 \<Rightarrow> u16" where
  "packus32 w = (if sint w < 0 then 0 else if sint w > 65535 then 65535 else ucast w)"

definition mm_packus_epi16 :: "m128i \<Rightarrow> m128i \<Rightarrow> m128i" where
  "mm_packus_epi16 a b = map packus16 (epi16 a @ epi16 b)"

definition mm_packus_epi32 :: "m128i \<Rightarrow> m128i \<Rightarrow> m128i" where
  "mm_packus_epi32 a b = of_epi16 (map packus32 (epi32 a @ epi32 b))"

definition min_s16 :: "u16 \<Rightarrow> u16 \<Rightarrow> u16" where
  "min_s16 x y = (if sint x \<le> sint y then x else y)"

definition mm_min_epi16 :: "m128i \<Rightarrow> m128i \<Rightarrow> m128i" where
  "mm_min_epi16 a b = of_epi16 (map2 min_s16 (epi16 a) (epi16 b))"

definition adds_u16 :: "u16 \<Rightarrow> u16 \<Rightarrow> u16" where
  "adds_u16 x y = (if unat x + unat y > 65535 then 65535 else x + y)"

definition mm_adds_epu16 :: "m128i \<Rightarrow> m128i \<Rightarrow> m128i" where
  "mm_adds_epu16 a b = of_epi16 (map2 adds_u16 (epi16 a) (epi16 b))"

definition mm_slli_epi16 :: "m128i \<Rightarrow> nat \<Rightarrow> m128i" where
  "mm_slli_epi16 a n = of_epi16 (map (push_bit n) (epi16 a))"

definition mm_srli_epi32 :: "m128i \<Rightarrow> nat \<Rightarrow> m128i" where
  "mm_srli_epi32 a n = of_epi32 (map (drop_bit n) (epi32 a))"

text \<open>\<open>_mm_movemask_epi8\<close>: bit \<open>i\<close> of the result is the top bit of byte \<open>i\<close>.\<close>

fun movemask :: "byte list \<Rightarrow> nat" where
  "movemask [] = 0"
| "movemask (b # bs) = (if bit b 7 then 1 else 0) + 2 * movemask bs"

definition mm_movemask_epi8 :: "m128i \<Rightarrow> u32" where
  "mm_movemask_epi8 a = of_nat (movemask a)"

text \<open>\<open>_mm_shuffle_epi8\<close>: a control byte with its top bit set gives zero,
  otherwise its low four bits select a source byte.\<close>

definition mm_shuffle_epi8 :: "m128i \<Rightarrow> m128i \<Rightarrow> m128i" where
  "mm_shuffle_epi8 a b = map (\<lambda>c. if bit c 7 then 0 else a ! unat (c AND 0x0F)) b"

definition mm_add_epi32 :: "m128i \<Rightarrow> m128i \<Rightarrow> m128i" where
  "mm_add_epi32 a b = of_epi32 (map2 (+) (epi32 a) (epi32 b))"

definition mm_sub_epi32 :: "m128i \<Rightarrow> m128i \<Rightarrow> m128i" where
  "mm_sub_epi32 a b = of_epi32 (map2 (-) (epi32 a) (epi32 b))"

definition mm_xor_si128 :: "m128i \<Rightarrow> m128i \<Rightarrow> m128i" where
  "mm_xor_si128 a b = map2 (XOR) a b"

definition mm_and_si128 :: "m128i \<Rightarrow> m128i \<Rightarrow> m128i" where
  "mm_and_si128 a b = map2 (AND) a b"

definition mm_or_si128 :: "m128i \<Rightarrow> m128i \<Rightarrow> m128i" where
  "mm_or_si128 a b = map2 (OR) a b"

definition mm_cmpgt_epi32 :: "m128i \<Rightarrow> m128i \<Rightarrow> m128i" where
  "mm_cmpgt_epi32 a b = of_epi32 (map2 (\<lambda>x y. if sint x > sint y then - 1 else 0) (epi32 a) (epi32 b))"

text \<open>\<open>_mm_alignr_epi8(a, b, n)\<close>: the 32-byte value with \<open>b\<close> in the low
  half and \<open>a\<close> in the high half, shifted right by \<open>n\<close> bytes, low 16 bytes.\<close>

definition mm_alignr_epi8 :: "m128i \<Rightarrow> m128i \<Rightarrow> nat \<Rightarrow> m128i" where
  "mm_alignr_epi8 a b n = take 16 (drop n (b @ a @ replicate 16 0))"

definition mm_insert_epi32 :: "m128i \<Rightarrow> u32 \<Rightarrow> nat \<Rightarrow> m128i" where
  "mm_insert_epi32 a x i = of_epi32 ((epi32 a)[i := x])"

definition mm_extract_epi32 :: "m128i \<Rightarrow> nat \<Rightarrow> u32" where
  "mm_extract_epi32 a i = epi32 a ! i"

definition mm_unpacklo_epi32 :: "m128i \<Rightarrow> m128i \<Rightarrow> m128i" where
  "mm_unpacklo_epi32 a b = of_epi32 [epi32 a ! 0, epi32 b ! 0, epi32 a ! 1, epi32 b ! 1]"

definition mm_unpackhi_epi32 :: "m128i \<Rightarrow> m128i \<Rightarrow> m128i" where
  "mm_unpackhi_epi32 a b = of_epi32 [epi32 a ! 2, epi32 b ! 2, epi32 a ! 3, epi32 b ! 3]"

definition mm_unpacklo_epi64 :: "m128i \<Rightarrow> m128i \<Rightarrow> m128i" where
  "mm_unpacklo_epi64 a b = take 8 a @ take 8 b"

definition mm_unpackhi_epi64 :: "m128i \<Rightarrow> m128i \<Rightarrow> m128i" where
  "mm_unpackhi_epi64 a b = drop 8 a @ drop 8 b"

subsection \<open>Vector filters (svb\_internal.h)\<close>

definition mm_zigzag_encode_epi32 :: "m128i \<Rightarrow> m128i" where
  "mm_zigzag_encode_epi32 v =
     (let signmask = mm_cmpgt_epi32 mm_setzero_si128 v
      in mm_xor_si128 (mm_add_epi32 v v) signmask)"

definition mm_delta_encode_epi32 :: "m128i \<Rightarrow> m128i \<Rightarrow> m128i" where
  "mm_delta_encode_epi32 v prev = mm_sub_epi32 v (mm_alignr_epi8 v prev 12)"

definition mm_delta_zigzag_encode_epi32 :: "m128i \<Rightarrow> m128i \<Rightarrow> m128i" where
  "mm_delta_zigzag_encode_epi32 v prev = mm_zigzag_encode_epi32 (mm_delta_encode_epi32 v prev)"

text \<open>The macro \<open>SVB_TRANSPOSE(row0, row1, row2, row3)\<close> assigns to its four
  arguments; the model returns the four new rows.\<close>

definition SVB_TRANSPOSE :: "m128i \<Rightarrow> m128i \<Rightarrow> m128i \<Rightarrow> m128i \<Rightarrow> m128i \<times> m128i \<times> m128i \<times> m128i" where
  "SVB_TRANSPOSE row0 row1 row2 row3 =
     (let t0 = mm_unpacklo_epi32 row0 row1;
          t1 = mm_unpacklo_epi32 row2 row3;
          t2 = mm_unpackhi_epi32 row0 row1;
          t3 = mm_unpackhi_epi32 row2 row3;
          row0 = mm_unpacklo_epi64 t0 t1;
          row1 = mm_unpackhi_epi64 t0 t1;
          row2 = mm_unpacklo_epi64 t2 t3;
          row3 = mm_unpackhi_epi64 t2 t3
      in (row0, row1, row2, row3))"

section \<open>The 8-element encode macros and their tables\<close>

subsection \<open>svb1\_enc.c\<close>

text \<open>\<open>svb1_len_table[256]\<close>: how many bytes are retained from a 16-byte chunk.\<close>
definition svb1_len_table :: "byte list" where
  "svb1_len_table = [
     4,  5,  6,  7,  5,  6,  7,  8,  6,  7,  8,  9,  7,  8,  9, 10,
     5,  6,  7,  8,  6,  7,  8,  9,  7,  8,  9, 10,  8,  9, 10, 11,
     6,  7,  8,  9,  7,  8,  9, 10,  8,  9, 10, 11,  9, 10, 11, 12,
     7,  8,  9, 10,  8,  9, 10, 11,  9, 10, 11, 12, 10, 11, 12, 13,
     5,  6,  7,  8,  6,  7,  8,  9,  7,  8,  9, 10,  8,  9, 10, 11,
     6,  7,  8,  9,  7,  8,  9, 10,  8,  9, 10, 11,  9, 10, 11, 12,
     7,  8,  9, 10,  8,  9, 10, 11,  9, 10, 11, 12, 10, 11, 12, 13,
     8,  9, 10, 11,  9, 10, 11, 12, 10, 11, 12, 13, 11, 12, 13, 14,
     6,  7,  8,  9,  7,  8,  9, 10,  8,  9, 10, 11,  9, 10, 11, 12,
     7,  8,  9, 10,  8,  9, 10, 11,  9, 10, 11, 12, 10, 11, 12, 13,
     8,  9, 10, 11,  9, 10, 11, 12, 10, 11, 12, 13, 11, 12, 13, 14,
     9, 10, 11, 12, 10, 11, 12, 13, 11, 12, 13, 14, 12, 13, 14, 15,
     7,  8,  9, 10,  8,  9, 10, 11,  9, 10, 11, 12, 10, 11, 12, 13,
     8,  9, 10, 11,  9, 10, 11, 12, 10, 11, 12, 13, 11, 12, 13, 14,
     9, 10, 11, 12, 10, 11, 12, 13, 11, 12, 13, 14, 12, 13, 14, 15,
    10, 11, 12, 13, 11, 12, 13, 14, 12, 13, 14, 15, 13, 14, 15, 16]"

text \<open>\<open>svb1_enc_table[64*16]\<close>: the encoder permutation table, one row of 16 bytes per source line.\<close>
definition svb1_enc_table :: "byte list" where
  "svb1_enc_table = concat [
    [ 0,  4,  8, 12, 13, 14, 15,  0,  0,  0,  0,  0,  0,  0,  0,  0],
    [ 0,  1,  4,  8, 12, 13, 14, 15,  0,  0,  0,  0,  0,  0,  0,  0],
    [ 0,  1,  2,  4,  8, 12, 13, 14, 15,  0,  0,  0,  0,  0,  0,  0],
    [ 0,  1,  2,  3,  4,  8, 12, 13, 14, 15,  0,  0,  0,  0,  0,  0],
    [ 0,  4,  5,  8, 12, 13, 14, 15,  0,  0,  0,  0,  0,  0,  0,  0],
    [ 0,  1,  4,  5,  8, 12, 13, 14, 15,  0,  0,  0,  0,  0,  0,  0],
    [ 0,  1,  2,  4,  5,  8, 12, 13, 14, 15,  0,  0,  0,  0,  0,  0],
    [ 0,  1,  2,  3,  4,  5,  8, 12, 13, 14, 15,  0,  0,  0,  0,  0],
    [ 0,  4,  5,  6,  8, 12, 13, 14, 15,  0,  0,  0,  0,  0,  0,  0],
    [ 0,  1,  4,  5,  6,  8, 12, 13, 14, 15,  0,  0,  0,  0,  0,  0],
    [ 0,  1,  2,  4,  5,  6,  8, 12, 13, 14, 15,  0,  0,  0,  0,  0],
    [ 0,  1,  2,  3,  4,  5,  6,  8, 12, 13, 14, 15,  0,  0,  0,  0],
    [ 0,  4,  5,  6,  7,  8, 12, 13, 14, 15,  0,  0,  0,  0,  0,  0],
    [ 0,  1,  4,  5,  6,  7,  8, 12, 13, 14, 15,  0,  0,  0,  0,  0],
    [ 0,  1,  2,  4,  5,  6,  7,  8, 12, 13, 14, 15,  0,  0,  0,  0],
    [ 0,  1,  2,  3,  4,  5,  6,  7,  8, 12, 13, 14, 15,  0,  0,  0],
    [ 0,  4,  8,  9, 12, 13, 14, 15,  0,  0,  0,  0,  0,  0,  0,  0],
    [ 0,  1,  4,  8,  9, 12, 13, 14, 15,  0,  0,  0,  0,  0,  0,  0],
    [ 0,  1,  2,  4,  8,  9, 12, 13, 14, 15,  0,  0,  0,  0,  0,  0],
    [ 0,  1,  2,  3,  4,  8,  9, 12, 13, 14, 15,  0,  0,  0,  0,  0],
    [ 0,  4,  5,  8,  9, 12, 13, 14, 15,  0,  0,  0,  0,  0,  0,  0],
    [ 0,  1,  4,  5,  8,  9, 12, 13, 14, 15,  0,  0,  0,  0,  0,  0],
    [ 0,  1,  2,  4,  5,  8,  9, 12, 13, 14, 15,  0,  0,  0,  0,  0],
    [ 0,  1,  2,  3,  4,  5,  8,  9, 12, 13, 14, 15,  0,  0,  0,  0],
    [ 0,  4,  5,  6,  8,  9, 12, 13, 14, 15,  0,  0,  0,  0,  0,  0],
    [ 0,  1,  4,  5,  6,  8,  9, 12, 13, 14, 15,  0,  0,  0,  0,  0],
    [ 0,  1,  2,  4,  5,  6,  8,  9, 12, 13, 14, 15,  0,  0,  0,  0],
    [ 0,  1,  2,  3,  4,  5,  6,  8,  9, 12, 13, 14, 15,  0,  0,  0],
    [ 0,  4,  5,  6,  7,  8,  9, 12, 13, 14, 15,  0,  0,  0,  0,  0],
    [ 0,  1,  4,  5,  6,  7,  8,  9, 12, 13, 14, 15,  0,  0,  0,  0],
    [ 0,  1,  2,  4,  5,  6,  7,  8,  9, 12, 13, 14, 15,  0,  0,  0],
    [ 0,  1,  2,  3,  4,  5,  6,  7,  8,  9, 12, 13, 14, 15,  0,  0],
    [ 0,  4,  8,  9, 10, 12, 13, 14, 15,  0,  0,  0,  0,  0,  0,  0],
    [ 0,  1,  4,  8,  9, 10, 12, 13, 14, 15,  0,  0,  0,  0,  0,  0],
    [ 0,  1,  2,  4,  8,  9, 10, 12, 13, 14, 15,  0,  0,  0,  0,  0],
    [ 0,  1,  2,  3,  4,  8,  9, 10, 12, 13, 14, 15,  0,  0,  0,  0],
    [ 0,  4,  5,  8,  9, 10, 12, 13, 14, 15,  0,  0,  0,  0,  0,  0],
    [ 0,  1,  4,  5,  8,  9, 10, 12, 13, 14, 15,  0,  0,  0,  0,  0],
    [ 0,  1,  2,  4,  5,  8,  9, 10, 12, 13, 14, 15,  0,  0,  0,  0],
    [ 0,  1,  2,  3,  4,  5,  8,  9, 10, 12, 13, 14, 15,  0,  0,  0],
    [ 0,  4,  5,  6,  8,  9, 10, 12, 13, 14, 15,  0,  0,  0,  0,  0],
    [ 0,  1,  4,  5,  6,  8,  9, 10, 12, 13, 14, 15,  0,  0,  0,  0],
    [ 0,  1,  2,  4,  5,  6,  8,  9, 10, 12, 13, 14, 15,  0,  0,  0],
    [ 0,  1,  2,  3,  4,  5,  6,  8,  9, 10, 12, 13, 14, 15,  0,  0],
    [ 0,  4,  5,  6,  7,  8,  9, 10, 12, 13, 14, 15,  0,  0,  0,  0],
    [ 0,  1,  4,  5,  6,  7,  8,  9, 10, 12, 13, 14, 15,  0,  0,  0],
    [ 0,  1,  2,  4,  5,  6,  7,  8,  9, 10, 12, 13, 14, 15,  0,  0],
    [ 0,  1,  2,  3,  4,  5,  6,  7,  8,  9, 10, 12, 13, 14, 15,  0],
    [ 0,  4,  8,  9, 10, 11, 12, 13, 14, 15,  0,  0,  0,  0,  0,  0],
    [ 0,  1,  4,  8,  9, 10, 11, 12, 13, 14, 15,  0,  0,  0,  0,  0],
    [ 0,  1,  2,  4,  8,  9, 10, 11, 12, 13, 14, 15,  0,  0,  0,  0],
    [ 0,  1,  2,  3,  4,  8,  9, 10, 11, 12, 13, 14, 15,  0,  0,  0],
    [ 0,  4,  5,  8,  9, 10, 11, 12, 13, 14, 15,  0,  0,  0,  0,  0],
    [ 0,  1,  4,  5,  8,  9, 10, 11, 12, 13, 14, 15,  0,  0,  0,  0],
    [ 0,  1,  2,  4,  5,  8,  9, 10, 11, 12, 13, 14, 15,  0,  0,  0],
    [ 0,  1,  2,  3,  4,  5,  8,  9, 10, 11, 12, 13, 14, 15,  0,  0],
    [ 0,  4,  5,  6,  8,  9, 10, 11, 12, 13, 14, 15,  0,  0,  0,  0],
    [ 0,  1,  4,  5,  6,  8,  9, 10, 11, 12, 13, 14, 15,  0,  0,  0],
    [ 0,  1,  2,  4,  5,  6,  8,  9, 10, 11, 12, 13, 14, 15,  0,  0],
    [ 0,  1,  2,  3,  4,  5,  6,  8,  9, 10, 11, 12, 13, 14, 15,  0],
    [ 0,  4,  5,  6,  7,  8,  9, 10, 11, 12, 13, 14, 15,  0,  0,  0],
    [ 0,  1,  4,  5,  6,  7,  8,  9, 10, 11, 12, 13, 14, 15,  0,  0],
    [ 0,  1,  2,  4,  5,  6,  7,  8,  9, 10, 11, 12, 13, 14, 15,  0],
    [ 0,  1,  2,  3,  4,  5,  6,  7,  8,  9, 10, 11, 12, 13, 14, 15]]"

text \<open>
  \<open>SVB1_ENCODE8(key_ptr, data_ptr, src_a, src_b)\<close> stores into the buffer and
  advances both pointers.  \<open>keys\<close> is a \<open>size_t\<close> holding the result of
  \<open>_mm_movemask_epi8\<close>.
\<close>

definition SVB1_ENCODE8 :: "mem \<Rightarrow> nat \<Rightarrow> nat \<Rightarrow> m128i \<Rightarrow> m128i \<Rightarrow> mem \<times> nat \<times> nat" where
  "SVB1_ENCODE8 m key_ptr data_ptr src_a src_b =
     (let mask_01 = mm_set1_epi8 0x01;
          mask_7F00 = mm_set1_epi16 0x7F00;
          a = mm_min_epu8 mask_01 src_a;
          b = mm_min_epu8 mask_01 src_b;
          a = mm_packus_epi16 a b;
          a = mm_min_epi16 a mask_01;
          a = mm_adds_epu16 a mask_7F00;
          keys = (ucast (mm_movemask_epi8 a) :: u64);
          shuf_a = unat (push_bit 4 keys AND 0x03F0);
          shuf_b = unat (drop_bit 4 keys AND 0x03F0);
          data_a = mm_shuffle_epi8 src_a (mm_loadu_si128_u8 svb1_enc_table shuf_a);
          data_b = mm_shuffle_epi8 src_b (mm_loadu_si128_u8 svb1_enc_table shuf_b);
          m = mm_storeu_si128 m data_ptr data_a;
          data_ptr = data_ptr + unat (svb1_len_table ! unat (keys AND 0xFF));
          m = mm_storeu_si128 m data_ptr data_b;
          data_ptr = data_ptr + unat (svb1_len_table ! unat (drop_bit 8 keys));
          m = svb_storeu_u16 m key_ptr (ucast keys);
          key_ptr = key_ptr + 2
      in (m, key_ptr, data_ptr))"

subsection \<open>svb0\_enc.c\<close>

text \<open>\<open>svb0_len_table[256]\<close>: how many bytes are retained from a 16-byte chunk.\<close>
definition svb0_len_table :: "byte list" where
  "svb0_len_table = [
     0,  1,  2,  4,  1,  2,  3,  5,  2,  3,  4,  6,  4,  5,  6,  8,
     1,  2,  3,  5,  2,  3,  4,  6,  3,  4,  5,  7,  5,  6,  7,  9,
     2,  3,  4,  6,  3,  4,  5,  7,  4,  5,  6,  8,  6,  7,  8, 10,
     4,  5,  6,  8,  5,  6,  7,  9,  6,  7,  8, 10,  8,  9, 10, 12,
     1,  2,  3,  5,  2,  3,  4,  6,  3,  4,  5,  7,  5,  6,  7,  9,
     2,  3,  4,  6,  3,  4,  5,  7,  4,  5,  6,  8,  6,  7,  8, 10,
     3,  4,  5,  7,  4,  5,  6,  8,  5,  6,  7,  9,  7,  8,  9, 11,
     5,  6,  7,  9,  6,  7,  8, 10,  7,  8,  9, 11,  9, 10, 11, 13,
     2,  3,  4,  6,  3,  4,  5,  7,  4,  5,  6,  8,  6,  7,  8, 10,
     3,  4,  5,  7,  4,  5,  6,  8,  5,  6,  7,  9,  7,  8,  9, 11,
     4,  5,  6,  8,  5,  6,  7,  9,  6,  7,  8, 10,  8,  9, 10, 12,
     6,  7,  8, 10,  7,  8,  9, 11,  8,  9, 10, 12, 10, 11, 12, 14,
     4,  5,  6,  8,  5,  6,  7,  9,  6,  7,  8, 10,  8,  9, 10, 12,
     5,  6,  7,  9,  6,  7,  8, 10,  7,  8,  9, 11,  9, 10, 11, 13,
     6,  7,  8, 10,  7,  8,  9, 11,  8,  9, 10, 12, 10, 11, 12, 14,
     8,  9, 10, 12,  9, 10, 11, 13, 10, 11, 12, 14, 12, 13, 14, 16]"

text \<open>\<open>svb0_enc_table[64*16]\<close>: the encoder permutation table, one row of 16 bytes per source line.\<close>
definition svb0_enc_table :: "byte list" where
  "svb0_enc_table = concat [
    [12, 13, 14, 15,  0,  0,  0,  0,  0,  0,  0,  0,  0,  0,  0,  0],
    [ 0, 12, 13, 14, 15,  0,  0,  0,  0,  0,  0,  0,  0,  0,  0,  0],
    [ 0,  1, 12, 13, 14, 15,  0,  0,  0,  0,  0,  0,  0,  0,  0,  0],
    [ 0,  1,  2,  3, 12, 13, 14, 15,  0,  0,  0,  0,  0,  0,  0,  0],
    [ 4, 12, 13, 14, 15,  0,  0,  0,  0,  0,  0,  0,  0,  0,  0,  0],
    [ 0,  4, 12, 13, 14, 15,  0,  0,  0,  0,  0,  0,  0,  0,  0,  0],
    [ 0,  1,  4, 12, 13, 14, 15,  0,  0,  0,  0,  0,  0,  0,  0,  0],
    [ 0,  1,  2,  3,  4, 12, 13, 14, 15,  0,  0,  0,  0,  0,  0,  0],
    [ 4,  5, 12, 13, 14, 15,  0,  0,  0,  0,  0,  0,  0,  0,  0,  0],
    [ 0,  4,  5, 12, 13, 14, 15,  0,  0,  0,  0,  0,  0,  0,  0,  0],
    [ 0,  1,  4,  5, 12, 13, 14, 15,  0,  0,  0,  0,  0,  0,  0,  0],
    [ 0,  1,  2,  3,  4,  5, 12, 13, 14, 15,  0,  0,  0,  0,  0,  0],
    [ 4,  5,  6,  7, 12, 13, 14, 15,  0,  0,  0,  0,  0,  0,  0,  0],
    [ 0,  4,  5,  6,  7, 12, 13, 14, 15,  0,  0,  0,  0,  0,  0,  0],
    [ 0,  1,  4,  5,  6,  7, 12, 13, 14, 15,  0,  0,  0,  0,  0,  0],
    [ 0,  1,  2,  3,  4,  5,  6,  7, 12, 13, 14, 15,  0,  0,  0,  0],
    [ 8, 12, 13, 14, 15,  0,  0,  0,  0,  0,  0,  0,  0,  0,  0,  0],
    [ 0,  8, 12, 13, 14, 15,  0,  0,  0,  0,  0,  0,  0,  0,  0,  0],
    [ 0,  1,  8, 12, 13, 14, 15,  0,  0,  0,  0,  0,  0,  0,  0,  0],
    [ 0,  1,  2,  3,  8, 12, 13, 14, 15,  0,  0,  0,  0,  0,  0,  0],
    [ 4,  8, 12, 13, 14, 15,  0,  0,  0,  0,  0,  0,  0,  0,  0,  0],
    [ 0,  4,  8, 12, 13, 14, 15,  0,  0,  0,  0,  0,  0,  0,  0,  0],
    [ 0,  1,  4,  8, 12, 13, 14, 15,  0,  0,  0,  0,  0,  0,  0,  0],
    [ 0,  1,  2,  3,  4,  8, 12, 13, 14, 15,  0,  0,  0,  0,  0,  0],
    [ 4,  5,  8, 12, 13, 14, 15,  0,  0,  0,  0,  0,  0,  0,  0,  0],
    [ 0,  4,  5,  8, 12, 13, 14, 15,  0,  0,  0,  0,  0,  0,  0,  0],
    [ 0,  1,  4,  5,  8, 12, 13, 14, 15,  0,  0,  0,  0,  0,  0,  0],
    [ 0,  1,  2,  3,  4,  5,  8, 12, 13, 14, 15,  0,  0,  0,  0,  0],
    [ 4,  5,  6,  7,  8, 12, 13, 14, 15,  0,  0,  0,  0,  0,  0,  0],
    [ 0,  4,  5,  6,  7,  8, 12, 13, 14, 15,  0,  0,  0,  0,  0,  0],
    [ 0,  1,  4,  5,  6,  7,  8, 12, 13, 14, 15,  0,  0,  0,  0,  0],
    [ 0,  1,  2,  3,  4,  5,  6,  7,  8, 12, 13, 14, 15,  0,  0,  0],
    [ 8,  9, 12, 13, 14, 15,  0,  0,  0,  0,  0,  0,  0,  0,  0,  0],
    [ 0,  8,  9, 12, 13, 14, 15,  0,  0,  0,  0,  0,  0,  0,  0,  0],
    [ 0,  1,  8,  9, 12, 13, 14, 15,  0,  0,  0,  0,  0,  0,  0,  0],
    [ 0,  1,  2,  3,  8,  9, 12, 13, 14, 15,  0,  0,  0,  0,  0,  0],
    [ 4,  8,  9, 12, 13, 14, 15,  0,  0,  0,  0,  0,  0,  0,  0,  0],
    [ 0,  4,  8,  9, 12, 13, 14, 15,  0,  0,  0,  0,  0,  0,  0,  0],
    [ 0,  1,  4,  8,  9, 12, 13, 14, 15,  0,  0,  0,  0,  0,  0,  0],
    [ 0,  1,  2,  3,  4,  8,  9, 12, 13, 14, 15,  0,  0,  0,  0,  0],
    [ 4,  5,  8,  9, 12, 13, 14, 15,  0,  0,  0,  0,  0,  0,  0,  0],
    [ 0,  4,  5,  8,  9, 12, 13, 14, 15,  0,  0,  0,  0,  0,  0,  0],
    [ 0,  1,  4,  5,  8,  9, 12, 13, 14, 15,  0,  0,  0,  0,  0,  0],
    [ 0,  1,  2,  3,  4,  5,  8,  9, 12, 13, 14, 15,  0,  0,  0,  0],
    [ 4,  5,  6,  7,  8,  9, 12, 13, 14, 15,  0,  0,  0,  0,  0,  0],
    [ 0,  4,  5,  6,  7,  8,  9, 12, 13, 14, 15,  0,  0,  0,  0,  0],
    [ 0,  1,  4,  5,  6,  7,  8,  9, 12, 13, 14, 15,  0,  0,  0,  0],
    [ 0,  1,  2,  3,  4,  5,  6,  7,  8,  9, 12, 13, 14, 15,  0,  0],
    [ 8,  9, 10, 11, 12, 13, 14, 15,  0,  0,  0,  0,  0,  0,  0,  0],
    [ 0,  8,  9, 10, 11, 12, 13, 14, 15,  0,  0,  0,  0,  0,  0,  0],
    [ 0,  1,  8,  9, 10, 11, 12, 13, 14, 15,  0,  0,  0,  0,  0,  0],
    [ 0,  1,  2,  3,  8,  9, 10, 11, 12, 13, 14, 15,  0,  0,  0,  0],
    [ 4,  8,  9, 10, 11, 12, 13, 14, 15,  0,  0,  0,  0,  0,  0,  0],
    [ 0,  4,  8,  9, 10, 11, 12, 13, 14, 15,  0,  0,  0,  0,  0,  0],
    [ 0,  1,  4,  8,  9, 10, 11, 12, 13, 14, 15,  0,  0,  0,  0,  0],
    [ 0,  1,  2,  3,  4,  8,  9, 10, 11, 12, 13, 14, 15,  0,  0,  0],
    [ 4,  5,  8,  9, 10, 11, 12, 13, 14, 15,  0,  0,  0,  0,  0,  0],
    [ 0,  4,  5,  8,  9, 10, 11, 12, 13, 14, 15,  0,  0,  0,  0,  0],
    [ 0,  1,  4,  5,  8,  9, 10, 11, 12, 13, 14, 15,  0,  0,  0,  0],
    [ 0,  1,  2,  3,  4,  5,  8,  9, 10, 11, 12, 13, 14, 15,  0,  0],
    [ 4,  5,  6,  7,  8,  9, 10, 11, 12, 13, 14, 15,  0,  0,  0,  0],
    [ 0,  4,  5,  6,  7,  8,  9, 10, 11, 12, 13, 14, 15,  0,  0,  0],
    [ 0,  1,  4,  5,  6,  7,  8,  9, 10, 11, 12, 13, 14, 15,  0,  0],
    [ 0,  1,  2,  3,  4,  5,  6,  7,  8,  9, 10, 11, 12, 13, 14, 15]]"

definition SVB0_ENCODE8 :: "mem \<Rightarrow> nat \<Rightarrow> nat \<Rightarrow> m128i \<Rightarrow> m128i \<Rightarrow> mem \<times> nat \<times> nat" where
  "SVB0_ENCODE8 m key_ptr data_ptr src_a src_b =
     (let mask_01 = mm_set1_epi8 0x01;
          mask_0100 = mm_slli_epi16 mask_01 8;
          a = mm_min_epu8 mask_01 src_a;
          b = mm_min_epu8 mask_01 src_b;
          a = mm_packus_epi32 a b;
          a = mm_min_epi16 a mask_0100;
          a = mm_slli_epi16 a 7;
          keys = (ucast (mm_movemask_epi8 a) :: u64);
          shuf_a = unat (push_bit 4 keys AND 0x03F0);
          shuf_b = unat (drop_bit 4 keys AND 0x03F0);
          data_a = mm_shuffle_epi8 src_a (mm_loadu_si128_u8 svb0_enc_table shuf_a);
          data_b = mm_shuffle_epi8 src_b (mm_loadu_si128_u8 svb0_enc_table shuf_b);
          m = mm_storeu_si128 m data_ptr data_a;
          data_ptr = data_ptr + unat (svb0_len_table ! unat (keys AND 0xFF));
          m = mm_storeu_si128 m data_ptr data_b;
          data_ptr = data_ptr + unat (svb0_len_table ! unat (drop_bit 8 keys));
          m = svb_storeu_u16 m key_ptr (ucast keys);
          key_ptr = key_ptr + 2
      in (m, key_ptr, data_ptr))"

section \<open>The x64 encoders\<close>

text \<open>
  The five SVB1 and five SVB0 x64 encoders are the same text up to the
  8-element macro, the scalar step and the filter.  Each is written here once
  with these as parameters, and every C function is the instance named after
  it.  \<open>in\<close> is advanced by the chunk loops; the model keeps the array and an
  index \<open>i\<close> of the element \<open>in\<close> points to.  \<open>count & ~7\<close> on the unsigned
  \<open>count\<close> is \<open>nat (int count AND NOT 7)\<close>.
\<close>

type_synonym enc8 = "mem \<Rightarrow> nat \<Rightarrow> nat \<Rightarrow> m128i \<Rightarrow> m128i \<Rightarrow> mem \<times> nat \<times> nat"
type_synonym enc1 = "mem \<Rightarrow> u32 \<Rightarrow> nat \<Rightarrow> u32 \<Rightarrow> nat \<Rightarrow> mem \<times> u32 \<times> nat"

text \<open>The body of the SVB1 scalar tail: \<open>code = _svb1_encode1_x64(data_ptr, dw);
  data_ptr += 1 + code; keys |= code << i*2;\<close> with \<open>shift = i*2\<close>.  It has the
  shape of \<open>SVB0_ENCODE1\<close>.\<close>

definition svb1_encode1_step :: enc1 where
  "svb1_encode1_step m keys data_ptr dw shift =
     (let (m, code) = svb1_encode1_x64 m data_ptr dw;
          data_ptr = data_ptr + (1 + unat code);
          keys = keys OR push_bit shift code
      in (m, keys, data_ptr))"

text \<open>\<open>do { load; in += 8; filter; ENCODE8 } while (in < end);\<close>\<close>

function x64_chunk_loop ::
  "enc8 \<Rightarrow> (m128i \<Rightarrow> m128i) \<Rightarrow> u32 list \<Rightarrow> nat \<Rightarrow> nat \<Rightarrow> mem \<Rightarrow> nat \<Rightarrow> nat
     \<Rightarrow> mem \<times> nat \<times> nat \<times> nat" where
  "x64_chunk_loop ENCODE8 filt inp end i m key_ptr data_ptr =
     (let src_a = mm_loadu_si128_u32 inp i;
          src_b = mm_loadu_si128_u32 inp (i + 4);
          i = i + 8;
          src_a = filt src_a;
          src_b = filt src_b;
          (m, key_ptr, data_ptr) = ENCODE8 m key_ptr data_ptr src_a src_b
      in if i < end then x64_chunk_loop ENCODE8 filt inp end i m key_ptr data_ptr
         else (m, key_ptr, data_ptr, i))"
  by pat_completeness auto
termination
  by (relation "measure (\<lambda>(E, f, inp, end, i, m, kp, dp). end - i)") auto

declare x64_chunk_loop.simps [simp del]

text \<open>The chunk loop of the delta variants: \<open>diff_a = filt(src_a, prev);
  diff_b = filt(src_b, src_a); prev = src_b;\<close>\<close>

function x64_delta_chunk_loop ::
  "enc8 \<Rightarrow> (m128i \<Rightarrow> m128i \<Rightarrow> m128i) \<Rightarrow> u32 list \<Rightarrow> nat \<Rightarrow> nat \<Rightarrow> m128i \<Rightarrow> mem \<Rightarrow> nat \<Rightarrow> nat
     \<Rightarrow> mem \<times> nat \<times> nat \<times> nat \<times> m128i" where
  "x64_delta_chunk_loop ENCODE8 filt inp end i prev m key_ptr data_ptr =
     (let src_a = mm_loadu_si128_u32 inp i;
          src_b = mm_loadu_si128_u32 inp (i + 4);
          i = i + 8;
          diff_a = filt src_a prev;
          diff_b = filt src_b src_a;
          prev = src_b;
          (m, key_ptr, data_ptr) = ENCODE8 m key_ptr data_ptr diff_a diff_b
      in if i < end then x64_delta_chunk_loop ENCODE8 filt inp end i prev m key_ptr data_ptr
         else (m, key_ptr, data_ptr, i, prev))"
  by pat_completeness auto
termination
  by (relation "measure (\<lambda>(E, f, inp, end, i, prev, m, kp, dp). end - i)") auto

declare x64_delta_chunk_loop.simps [simp del]

text \<open>The scalar tail \<open>do { ... } while (++i < count);\<close>, without and with a
  running \<open>previous\<close>.\<close>

function x64_tail_loop ::
  "enc1 \<Rightarrow> (u32 \<Rightarrow> u32) \<Rightarrow> u32 list \<Rightarrow> nat \<Rightarrow> nat \<Rightarrow> nat \<Rightarrow> mem \<Rightarrow> u32 \<Rightarrow> nat
     \<Rightarrow> mem \<times> u32 \<times> nat" where
  "x64_tail_loop ENCODE1 filt inp base count i m keys data_ptr =
     (let dw = filt (inp ! (base + i));
          (m, keys, data_ptr) = ENCODE1 m keys data_ptr dw (i * 2);
          i = i + 1
      in if i < count then x64_tail_loop ENCODE1 filt inp base count i m keys data_ptr
         else (m, keys, data_ptr))"
  by pat_completeness auto
termination
  by (relation "measure (\<lambda>(E, f, inp, base, count, i, m, keys, dp). count - i)") auto

declare x64_tail_loop.simps [simp del]

function x64_delta_tail_loop ::
  "enc1 \<Rightarrow> (u32 \<Rightarrow> u32 \<Rightarrow> u32) \<Rightarrow> u32 list \<Rightarrow> nat \<Rightarrow> nat \<Rightarrow> nat \<Rightarrow> mem \<Rightarrow> u32 \<Rightarrow> nat \<Rightarrow> u32
     \<Rightarrow> mem \<times> u32 \<times> nat \<times> u32" where
  "x64_delta_tail_loop ENCODE1 filt inp base count i m keys data_ptr previous =
     (let dw = filt (inp ! (base + i)) previous;
          previous = inp ! (base + i);
          (m, keys, data_ptr) = ENCODE1 m keys data_ptr dw (i * 2);
          i = i + 1
      in if i < count then x64_delta_tail_loop ENCODE1 filt inp base count i m keys data_ptr previous
         else (m, keys, data_ptr, previous))"
  by pat_completeness auto
termination
  by (relation "measure (\<lambda>(E, f, inp, base, count, i, m, keys, dp, p). count - i)") auto

declare x64_delta_tail_loop.simps [simp del]

text \<open>\<open>key_ptr[0] = (uint8_t)keys; if (count > 4) key_ptr[1] = (uint8_t)(keys >> 8);\<close>\<close>

definition x64_store_tail_keys :: "mem \<Rightarrow> nat \<Rightarrow> u32 \<Rightarrow> nat \<Rightarrow> mem" where
  "x64_store_tail_keys m key_ptr keys count =
     (let m = m(key_ptr := ucast keys)
      in if count > 4 then m(key_ptr + 1 := ucast (drop_bit 8 keys)) else m)"

text \<open>\<open>svb1_enc_x64\<close>, \<open>svb1z_enc_x64\<close>, \<open>svb0_enc_x64\<close>, \<open>svb0z_enc_x64\<close>.\<close>

definition x64_enc ::
  "enc8 \<Rightarrow> enc1 \<Rightarrow> (m128i \<Rightarrow> m128i) \<Rightarrow> (u32 \<Rightarrow> u32) \<Rightarrow> u32 list \<Rightarrow> mem \<Rightarrow> mem \<times> nat" where
  "x64_enc ENCODE8 ENCODE1 vfilt sfilt inp out =
     (let count = length inp;
          key_block_len = svb_key_block_len count;
          key_ptr = 0;
          data_ptr = key_block_len;
          (m, key_ptr, data_ptr, i) =
            (if count \<ge> 8
             then x64_chunk_loop ENCODE8 vfilt inp (nat (int count AND NOT 7)) 0 out key_ptr data_ptr
             else (out, key_ptr, data_ptr, 0));
          count = count AND 7
      in if count \<noteq> 0
         then (let (m, keys, data_ptr) = x64_tail_loop ENCODE1 sfilt inp i count 0 m 0 data_ptr;
                   m = x64_store_tail_keys m key_ptr keys count
               in (m, data_ptr))
         else (m, data_ptr))"

definition svb1_enc_x64 :: "u32 list \<Rightarrow> mem \<Rightarrow> mem \<times> nat" where
  "svb1_enc_x64 inp out = x64_enc SVB1_ENCODE8 svb1_encode1_step (\<lambda>v. v) (\<lambda>v. v) inp out"

definition svb1z_enc_x64 :: "u32 list \<Rightarrow> mem \<Rightarrow> mem \<times> nat" where
  "svb1z_enc_x64 inp out =
     x64_enc SVB1_ENCODE8 svb1_encode1_step mm_zigzag_encode_epi32 zigzag_encode_32 inp out"

definition svb0_enc_x64 :: "u32 list \<Rightarrow> mem \<Rightarrow> mem \<times> nat" where
  "svb0_enc_x64 inp out = x64_enc SVB0_ENCODE8 SVB0_ENCODE1 (\<lambda>v. v) (\<lambda>v. v) inp out"

definition svb0z_enc_x64 :: "u32 list \<Rightarrow> mem \<Rightarrow> mem \<times> nat" where
  "svb0z_enc_x64 inp out =
     x64_enc SVB0_ENCODE8 SVB0_ENCODE1 mm_zigzag_encode_epi32 zigzag_encode_32 inp out"

text \<open>
  \<open>svb1d_enc_x64\<close>, \<open>svb1dz_enc_x64\<close>, \<open>svb0d_enc_x64\<close>, \<open>svb0dz_enc_x64\<close>.
  \<open>undef\<close> is the content of the register that \<open>_mm_undefined_si128()\<close> names.
\<close>

definition x64_delta_enc ::
  "enc8 \<Rightarrow> enc1 \<Rightarrow> (m128i \<Rightarrow> m128i \<Rightarrow> m128i) \<Rightarrow> (u32 \<Rightarrow> u32 \<Rightarrow> u32) \<Rightarrow> m128i
     \<Rightarrow> u32 list \<Rightarrow> mem \<Rightarrow> u32 \<Rightarrow> mem \<times> nat" where
  "x64_delta_enc ENCODE8 ENCODE1 vfilt sfilt undef inp out previous =
     (let count = length inp;
          key_block_len = svb_key_block_len count;
          key_ptr = 0;
          data_ptr = key_block_len;
          (m, key_ptr, data_ptr, i, previous) =
            (if count \<ge> 8
             then (let prev = undef;
                       prev = mm_insert_epi32 prev previous 3;
                       (m, key_ptr, data_ptr, i, prev) =
                          x64_delta_chunk_loop ENCODE8 vfilt inp (nat (int count AND NOT 7)) 0 prev
                            out key_ptr data_ptr;
                       previous = mm_extract_epi32 prev 3
                   in (m, key_ptr, data_ptr, i, previous))
             else (out, key_ptr, data_ptr, 0, previous));
          count = count AND 7
      in if count \<noteq> 0
         then (let (m, keys, data_ptr, previous) =
                      x64_delta_tail_loop ENCODE1 sfilt inp i count 0 m 0 data_ptr previous;
                   m = x64_store_tail_keys m key_ptr keys count
               in (m, data_ptr))
         else (m, data_ptr))"

definition svb1d_enc_x64 :: "m128i \<Rightarrow> u32 list \<Rightarrow> mem \<Rightarrow> u32 \<Rightarrow> mem \<times> nat" where
  "svb1d_enc_x64 undef inp out previous =
     x64_delta_enc SVB1_ENCODE8 svb1_encode1_step mm_delta_encode_epi32 delta_encode_32
       undef inp out previous"

definition svb1dz_enc_x64 :: "m128i \<Rightarrow> u32 list \<Rightarrow> mem \<Rightarrow> u32 \<Rightarrow> mem \<times> nat" where
  "svb1dz_enc_x64 undef inp out previous =
     x64_delta_enc SVB1_ENCODE8 svb1_encode1_step mm_delta_zigzag_encode_epi32 delta_zigzag_encode_32
       undef inp out previous"

definition svb0d_enc_x64 :: "m128i \<Rightarrow> u32 list \<Rightarrow> mem \<Rightarrow> u32 \<Rightarrow> mem \<times> nat" where
  "svb0d_enc_x64 undef inp out previous =
     x64_delta_enc SVB0_ENCODE8 SVB0_ENCODE1 mm_delta_encode_epi32 delta_encode_32
       undef inp out previous"

definition svb0dz_enc_x64 :: "m128i \<Rightarrow> u32 list \<Rightarrow> mem \<Rightarrow> u32 \<Rightarrow> mem \<times> nat" where
  "svb0dz_enc_x64 undef inp out previous =
     x64_delta_enc SVB0_ENCODE8 SVB0_ENCODE1 mm_delta_zigzag_encode_epi32 delta_zigzag_encode_32
       undef inp out previous"

subsection \<open>Delta and transpose\<close>

text \<open>The body of the 64-element loop of \<open>svb1dt_enc_x64\<close> and
  \<open>svb0dt_enc_x64\<close>.\<close>

definition dt_block_x64 ::
  "enc8 \<Rightarrow> u32 list \<Rightarrow> nat \<Rightarrow> m128i \<Rightarrow> mem \<Rightarrow> nat \<Rightarrow> nat \<Rightarrow> mem \<times> nat \<times> nat \<times> m128i" where
  "dt_block_x64 ENCODE8 inp i prev m key_ptr data_ptr =
     (let r3 = mm_loadu_si128_u32 inp (i + 12);
          r7 = mm_loadu_si128_u32 inp (i + 28);
          rB = mm_loadu_si128_u32 inp (i + 44);
          rF = mm_loadu_si128_u32 inp (i + 60);
          (r3, r7, rB, rF) = SVB_TRANSPOSE r3 r7 rB rF;
          prev = mm_alignr_epi8 rF prev 12;

          r0 = mm_loadu_si128_u32 inp (i + 0);
          r4 = mm_loadu_si128_u32 inp (i + 16);
          r8 = mm_loadu_si128_u32 inp (i + 32);
          rC = mm_loadu_si128_u32 inp (i + 48);
          (r0, r4, r8, rC) = SVB_TRANSPOSE r0 r4 r8 rC;
          temp = rC;
          rC = mm_sub_epi32 rC r8;
          r8 = mm_sub_epi32 r8 r4;
          r4 = mm_sub_epi32 r4 r0;
          r0 = mm_sub_epi32 r0 prev;
          (m, key_ptr, data_ptr) = ENCODE8 m key_ptr data_ptr r0 r4;
          (m, key_ptr, data_ptr) = ENCODE8 m key_ptr data_ptr r8 rC;

          r1 = mm_loadu_si128_u32 inp (i + 4);
          r5 = mm_loadu_si128_u32 inp (i + 20);
          r9 = mm_loadu_si128_u32 inp (i + 36);
          rD = mm_loadu_si128_u32 inp (i + 52);
          (r1, r5, r9, rD) = SVB_TRANSPOSE r1 r5 r9 rD;
          prev = rD;
          rD = mm_sub_epi32 rD r9;
          r9 = mm_sub_epi32 r9 r5;
          r5 = mm_sub_epi32 r5 r1;
          r1 = mm_sub_epi32 r1 temp;
          (m, key_ptr, data_ptr) = ENCODE8 m key_ptr data_ptr r1 r5;
          (m, key_ptr, data_ptr) = ENCODE8 m key_ptr data_ptr r9 rD;

          r2 = mm_loadu_si128_u32 inp (i + 8);
          r6 = mm_loadu_si128_u32 inp (i + 24);
          rA = mm_loadu_si128_u32 inp (i + 40);
          rE = mm_loadu_si128_u32 inp (i + 56);
          (r2, r6, rA, rE) = SVB_TRANSPOSE r2 r6 rA rE;
          temp = rE;
          rE = mm_sub_epi32 rE rA;
          rA = mm_sub_epi32 rA r6;
          r6 = mm_sub_epi32 r6 r2;
          r2 = mm_sub_epi32 r2 prev;
          (m, key_ptr, data_ptr) = ENCODE8 m key_ptr data_ptr r2 r6;
          (m, key_ptr, data_ptr) = ENCODE8 m key_ptr data_ptr rA rE;

          prev = rF;
          rF = mm_sub_epi32 rF rB;
          rB = mm_sub_epi32 rB r7;
          r7 = mm_sub_epi32 r7 r3;
          r3 = mm_sub_epi32 r3 temp;
          (m, key_ptr, data_ptr) = ENCODE8 m key_ptr data_ptr r3 r7;
          (m, key_ptr, data_ptr) = ENCODE8 m key_ptr data_ptr rB rF
      in (m, key_ptr, data_ptr, prev))"

text \<open>\<open>for (end = &in[count & ~63]; in != end; in += 64) { ... }\<close>: the loop
  tests \<open>in != end\<close>, so that it returns is part of what is proved.\<close>

partial_function (option) dt_block_loop_x64 ::
  "enc8 \<Rightarrow> u32 list \<Rightarrow> nat \<Rightarrow> nat \<Rightarrow> m128i \<Rightarrow> mem \<Rightarrow> nat \<Rightarrow> nat
     \<Rightarrow> (mem \<times> nat \<times> nat \<times> nat \<times> m128i) option" where
  "dt_block_loop_x64 ENCODE8 inp end i prev m key_ptr data_ptr =
     (if i \<noteq> end
      then (case dt_block_x64 ENCODE8 inp i prev m key_ptr data_ptr of
              (m, key_ptr, data_ptr, prev) \<Rightarrow>
                dt_block_loop_x64 ENCODE8 inp end (i + 64) prev m key_ptr data_ptr)
      else Some (m, key_ptr, data_ptr, i, prev))"

text \<open>\<open>for (end = &in[count & (63 ^ 7)]; in != end; in += 8) { ... }\<close>\<close>

partial_function (option) dt_chunk_loop_x64 ::
  "enc8 \<Rightarrow> u32 list \<Rightarrow> nat \<Rightarrow> nat \<Rightarrow> m128i \<Rightarrow> mem \<Rightarrow> nat \<Rightarrow> nat
     \<Rightarrow> (mem \<times> nat \<times> nat \<times> nat \<times> m128i) option" where
  "dt_chunk_loop_x64 ENCODE8 inp end i prev m key_ptr data_ptr =
     (if i \<noteq> end
      then (let src_a = mm_loadu_si128_u32 inp i;
                src_b = mm_loadu_si128_u32 inp (i + 4);
                diff_a = mm_delta_encode_epi32 src_a prev;
                diff_b = mm_delta_encode_epi32 src_b src_a;
                prev = src_b
            in case ENCODE8 m key_ptr data_ptr diff_a diff_b of
                 (m, key_ptr, data_ptr) \<Rightarrow>
                   dt_chunk_loop_x64 ENCODE8 inp end (i + 8) prev m key_ptr data_ptr)
      else Some (m, key_ptr, data_ptr, i, prev))"

text \<open>\<open>svb1dt_enc_x64\<close> and \<open>svb0dt_enc_x64\<close>.  Here \<open>key_block_len\<close> is
  declared \<open>uint32_t\<close>: the \<open>size_t\<close> result of \<open>_svb_key_block_len\<close> is
  truncated to 32 bits.\<close>

definition x64_dt_enc ::
  "enc8 \<Rightarrow> enc1 \<Rightarrow> m128i \<Rightarrow> u32 list \<Rightarrow> mem \<Rightarrow> u32 \<Rightarrow> (mem \<times> nat) option" where
  "x64_dt_enc ENCODE8 ENCODE1 undef inp out previous =
     (let count = length inp;
          key_block_len = unat (of_nat (svb_key_block_len count) :: u32);
          key_ptr = 0;
          data_ptr = key_block_len
      in do {
           (m, key_ptr, data_ptr, i, previous) \<leftarrow>
             (if count \<ge> 8
              then do {
                     let prev = undef;
                     let prev = mm_insert_epi32 prev previous 3;
                     (m, key_ptr, data_ptr, i, prev) \<leftarrow>
                        dt_block_loop_x64 ENCODE8 inp (nat (int count AND NOT 63)) 0 prev
                          out key_ptr data_ptr;
                     (m, key_ptr, data_ptr, i, prev) \<leftarrow>
                        dt_chunk_loop_x64 ENCODE8 inp (i + (count AND (63 XOR 7))) i prev
                          m key_ptr data_ptr;
                     let previous = mm_extract_epi32 prev 3;
                     Some (m, key_ptr, data_ptr, i, previous)
                   }
              else Some (out, key_ptr, data_ptr, 0, previous));
           let count = count AND 7;
           Some (if count \<noteq> 0
                 then (let (m, keys, data_ptr, previous) =
                              x64_delta_tail_loop ENCODE1 delta_encode_32 inp i count 0 m 0 data_ptr previous;
                           m = x64_store_tail_keys m key_ptr keys count
                       in (m, data_ptr))
                 else (m, data_ptr))
         })"

definition svb1dt_enc_x64 :: "m128i \<Rightarrow> u32 list \<Rightarrow> mem \<Rightarrow> u32 \<Rightarrow> (mem \<times> nat) option" where
  "svb1dt_enc_x64 undef inp out previous =
     x64_dt_enc SVB1_ENCODE8 svb1_encode1_step undef inp out previous"

definition svb0dt_enc_x64 :: "m128i \<Rightarrow> u32 list \<Rightarrow> mem \<Rightarrow> u32 \<Rightarrow> (mem \<times> nat) option" where
  "svb0dt_enc_x64 undef inp out previous =
     x64_dt_enc SVB0_ENCODE8 SVB0_ENCODE1 undef inp out previous"

section \<open>The generic encoders\<close>

text \<open>
  The portable build.  The scalar step of a format returns the code and the
  number of payload bytes (\<open>_svb0_encode1_generic\<close> does so through \<open>len\<close>;
  for SVB1 the caller adds \<open>1 + code\<close>).
\<close>

type_synonym genc1 = "mem \<Rightarrow> nat \<Rightarrow> u32 \<Rightarrow> mem \<times> byte \<times> nat"

definition svb1_generic_step :: genc1 where
  "svb1_generic_step m data_ptr dw =
     (let (m, code) = svb1_encode1_generic m data_ptr dw
      in (m, code, 1 + unat code))"

text \<open>The key buffer of every generic loop:
  \<open>if (shift != 8) { keys |= code << shift; shift += 2; }
    else { *key_ptr++ = keys; keys = code; shift = 2; }\<close>\<close>

definition generic_put_key :: "mem \<Rightarrow> nat \<Rightarrow> byte \<Rightarrow> byte \<Rightarrow> byte \<Rightarrow> mem \<times> nat \<times> byte \<times> byte" where
  "generic_put_key m key_ptr keys shift code =
     (if shift \<noteq> 8
      then (m, key_ptr, keys OR push_bit (unat shift) code, shift + 2)
      else (m(key_ptr := keys), key_ptr + 1, code, 2))"

text \<open>\<open>do { ... } while (++i < count);\<close>, without and with a running
  \<open>previous\<close>.\<close>

function generic_loop ::
  "genc1 \<Rightarrow> (u32 \<Rightarrow> u32) \<Rightarrow> u32 list \<Rightarrow> nat \<Rightarrow> nat \<Rightarrow> mem \<Rightarrow> nat \<Rightarrow> nat \<Rightarrow> byte \<Rightarrow> byte
     \<Rightarrow> mem \<times> nat \<times> nat \<times> byte \<times> byte" where
  "generic_loop encode1 filt inp count i m key_ptr data_ptr keys shift =
     (let dw = filt (inp ! i);
          (m, code, len) = encode1 m data_ptr dw;
          data_ptr = data_ptr + len;
          (m, key_ptr, keys, shift) = generic_put_key m key_ptr keys shift code;
          i = i + 1
      in if i < count then generic_loop encode1 filt inp count i m key_ptr data_ptr keys shift
         else (m, key_ptr, data_ptr, keys, shift))"
  by pat_completeness auto
termination
  by (relation "measure (\<lambda>(E, f, inp, count, i, m, kp, dp, keys, shift). count - i)") auto

declare generic_loop.simps [simp del]

function generic_delta_loop ::
  "genc1 \<Rightarrow> (u32 \<Rightarrow> u32 \<Rightarrow> u32) \<Rightarrow> u32 list \<Rightarrow> nat \<Rightarrow> nat \<Rightarrow> nat \<Rightarrow> mem \<Rightarrow> nat \<Rightarrow> nat \<Rightarrow> byte \<Rightarrow> byte
     \<Rightarrow> u32 \<Rightarrow> mem \<times> nat \<times> nat \<times> byte \<times> byte \<times> u32" where
  "generic_delta_loop encode1 filt inp base count i m key_ptr data_ptr keys shift previous =
     (let delta = filt (inp ! (base + i)) previous;
          previous = inp ! (base + i);
          (m, code, len) = encode1 m data_ptr delta;
          data_ptr = data_ptr + len;
          (m, key_ptr, keys, shift) = generic_put_key m key_ptr keys shift code;
          i = i + 1
      in if i < count
         then generic_delta_loop encode1 filt inp base count i m key_ptr data_ptr keys shift previous
         else (m, key_ptr, data_ptr, keys, shift, previous))"
  by pat_completeness auto
termination
  by (relation "measure (\<lambda>(E, f, inp, base, count, i, m, kp, dp, keys, shift, p). count - i)") auto

declare generic_delta_loop.simps [simp del]

text \<open>\<open>svb1_enc_generic\<close>, \<open>svb1z_enc_generic\<close>, \<open>svb0_enc_generic\<close>,
  \<open>svb0z_enc_generic\<close>.\<close>

definition generic_enc :: "genc1 \<Rightarrow> (u32 \<Rightarrow> u32) \<Rightarrow> u32 list \<Rightarrow> mem \<Rightarrow> mem \<times> nat" where
  "generic_enc encode1 filt inp out =
     (let count = length inp;
          key_block_len = svb_key_block_len count;
          key_ptr = 0;
          data_ptr = key_block_len
      in if count \<noteq> 0
         then (let (m, key_ptr, data_ptr, keys, shift) =
                      generic_loop encode1 filt inp count 0 out key_ptr data_ptr 0 0;
                   m = m(key_ptr := keys)
               in (m, data_ptr))
         else (out, data_ptr))"

definition svb1_enc_generic :: "u32 list \<Rightarrow> mem \<Rightarrow> mem \<times> nat" where
  "svb1_enc_generic inp out = generic_enc svb1_generic_step (\<lambda>v. v) inp out"

definition svb1z_enc_generic :: "u32 list \<Rightarrow> mem \<Rightarrow> mem \<times> nat" where
  "svb1z_enc_generic inp out = generic_enc svb1_generic_step zigzag_encode_32 inp out"

definition svb0_enc_generic :: "u32 list \<Rightarrow> mem \<Rightarrow> mem \<times> nat" where
  "svb0_enc_generic inp out = generic_enc svb0_encode1_generic (\<lambda>v. v) inp out"

definition svb0z_enc_generic :: "u32 list \<Rightarrow> mem \<Rightarrow> mem \<times> nat" where
  "svb0z_enc_generic inp out = generic_enc svb0_encode1_generic zigzag_encode_32 inp out"

text \<open>\<open>svb1d_enc_generic\<close>, \<open>svb1dz_enc_generic\<close>, \<open>svb0d_enc_generic\<close>,
  \<open>svb0dz_enc_generic\<close>.\<close>

definition generic_delta_enc ::
  "genc1 \<Rightarrow> (u32 \<Rightarrow> u32 \<Rightarrow> u32) \<Rightarrow> u32 list \<Rightarrow> mem \<Rightarrow> u32 \<Rightarrow> mem \<times> nat" where
  "generic_delta_enc encode1 filt inp out previous =
     (let count = length inp;
          key_block_len = svb_key_block_len count;
          key_ptr = 0;
          data_ptr = key_block_len
      in if count \<noteq> 0
         then (let (m, key_ptr, data_ptr, keys, shift, previous) =
                      generic_delta_loop encode1 filt inp 0 count 0 out key_ptr data_ptr 0 0 previous;
                   m = m(key_ptr := keys)
               in (m, data_ptr))
         else (out, data_ptr))"

definition svb1d_enc_generic :: "u32 list \<Rightarrow> mem \<Rightarrow> u32 \<Rightarrow> mem \<times> nat" where
  "svb1d_enc_generic inp out previous =
     generic_delta_enc svb1_generic_step delta_encode_32 inp out previous"

definition svb1dz_enc_generic :: "u32 list \<Rightarrow> mem \<Rightarrow> u32 \<Rightarrow> mem \<times> nat" where
  "svb1dz_enc_generic inp out previous =
     generic_delta_enc svb1_generic_step delta_zigzag_encode_32 inp out previous"

definition svb0d_enc_generic :: "u32 list \<Rightarrow> mem \<Rightarrow> u32 \<Rightarrow> mem \<times> nat" where
  "svb0d_enc_generic inp out previous =
     generic_delta_enc svb0_encode1_generic delta_encode_32 inp out previous"

definition svb0dz_enc_generic :: "u32 list \<Rightarrow> mem \<Rightarrow> u32 \<Rightarrow> mem \<times> nat" where
  "svb0dz_enc_generic inp out previous =
     generic_delta_enc svb0_encode1_generic delta_zigzag_encode_32 inp out previous"

subsection \<open>Delta and transpose\<close>

text \<open>First pass over a block of 64 elements: \<open>tile[i*4+j] = in[i] - previous\<close>
  for \<open>j < 4\<close>, \<open>i < 16\<close>, \<open>in\<close> advancing by 16 after each \<open>j\<close>.  Every entry
  of the uninitialised \<open>tile\<close> is written before it is read.\<close>

definition dt_tile_generic :: "u32 list \<Rightarrow> nat \<Rightarrow> u32 \<Rightarrow> u32 list \<times> u32" where
  "dt_tile_generic inp base previous =
     fold (\<lambda>j (tile, previous).
             fold (\<lambda>i (tile, previous).
                     (let dw = inp ! (base + 16 * j + i)
                      in (tile[i * 4 + j := delta_encode_32 dw previous], dw)))
                  [0..<16] (tile, previous))
          [0..<4] (replicate 64 0, previous)"

text \<open>Second pass: encode the 64 entries of the tile, then \<open>*key_ptr++ = keys\<close>.\<close>

definition dt_encode_tile_generic ::
  "genc1 \<Rightarrow> u32 list \<Rightarrow> mem \<Rightarrow> nat \<Rightarrow> nat \<Rightarrow> mem \<times> nat \<times> nat" where
  "dt_encode_tile_generic encode1 tile m key_ptr data_ptr =
     (let (m, key_ptr, data_ptr, keys, shift) =
            fold (\<lambda>i (m, key_ptr, data_ptr, keys, shift).
                    (let (m, code, len) = encode1 m data_ptr (tile ! i);
                         data_ptr = data_ptr + len;
                         (m, key_ptr, keys, shift) = generic_put_key m key_ptr keys shift code
                     in (m, key_ptr, data_ptr, keys, shift)))
                 [0..<64] (m, key_ptr, data_ptr, 0, 0);
          m = m(key_ptr := keys);
          key_ptr = key_ptr + 1
      in (m, key_ptr, data_ptr))"

text \<open>\<open>do { first pass; second pass } while (in != end);\<close>\<close>

partial_function (option) dt_block_loop_generic ::
  "genc1 \<Rightarrow> u32 list \<Rightarrow> nat \<Rightarrow> nat \<Rightarrow> u32 \<Rightarrow> mem \<Rightarrow> nat \<Rightarrow> nat
     \<Rightarrow> (mem \<times> nat \<times> nat \<times> nat \<times> u32) option" where
  "dt_block_loop_generic encode1 inp end i previous m key_ptr data_ptr =
     (case dt_tile_generic inp i previous of
        (tile, previous) \<Rightarrow>
          (case dt_encode_tile_generic encode1 tile m key_ptr data_ptr of
             (m, key_ptr, data_ptr) \<Rightarrow>
               if i + 64 \<noteq> end
               then dt_block_loop_generic encode1 inp end (i + 64) previous m key_ptr data_ptr
               else Some (m, key_ptr, data_ptr, i + 64, previous)))"

text \<open>\<open>svb1dt_enc_generic\<close> and \<open>svb0dt_enc_generic\<close>.\<close>

definition generic_dt_enc :: "genc1 \<Rightarrow> u32 list \<Rightarrow> mem \<Rightarrow> u32 \<Rightarrow> (mem \<times> nat) option" where
  "generic_dt_enc encode1 inp out previous =
     (let count = length inp;
          key_block_len = svb_key_block_len count;
          key_ptr = 0;
          data_ptr = key_block_len
      in do {
           (m, key_ptr, data_ptr, i, previous, count) \<leftarrow>
             (if nat (int count AND NOT 63) \<noteq> 0
              then do {
                     (m, key_ptr, data_ptr, i, previous) \<leftarrow>
                        dt_block_loop_generic encode1 inp (nat (int count AND NOT 63)) 0 previous
                          out key_ptr data_ptr;
                     let previous = inp ! (i - 1);
                     Some (m, key_ptr, data_ptr, i, previous, count AND 63)
                   }
              else Some (out, key_ptr, data_ptr, 0, previous, count));
           Some (if count \<noteq> 0
                 then (let (m, key_ptr, data_ptr, keys, shift, previous) =
                              generic_delta_loop encode1 delta_encode_32 inp i count 0
                                m key_ptr data_ptr 0 0 previous;
                           m = m(key_ptr := keys)
                       in (m, data_ptr))
                 else (m, data_ptr))
         })"

definition svb1dt_enc_generic :: "u32 list \<Rightarrow> mem \<Rightarrow> u32 \<Rightarrow> (mem \<times> nat) option" where
  "svb1dt_enc_generic inp out previous = generic_dt_enc svb1_generic_step inp out previous"

definition svb0dt_enc_generic :: "u32 list \<Rightarrow> mem \<Rightarrow> u32 \<Rightarrow> (mem \<times> nat) option" where
  "svb0dt_enc_generic inp out previous = generic_dt_enc svb0_encode1_generic inp out previous"

section \<open>The stream as the format defines it\<close>

text \<open>
  The reference the encoders are compared with, written from the stream
  layout of the format: a key block of \<open>(N + 3) div 4\<close> bytes holding four
  2-bit keys per byte, first element in the low bits, unused bits zero,
  followed by the payloads in element order, each the low-order bytes of the
  value, little-endian.
\<close>

definition payload :: "(u32 \<Rightarrow> nat) \<Rightarrow> u32 \<Rightarrow> byte list" where
  "payload len v = take (len v) (le_bytes32 v)"

definition data_block :: "(u32 \<Rightarrow> nat) \<Rightarrow> u32 list \<Rightarrow> byte list" where
  "data_block len ys = concat (map (payload len) ys)"

fun key_byte :: "nat list \<Rightarrow> nat" where
  "key_byte [] = 0"
| "key_byte (k # ks) = k + 4 * key_byte ks"

fun key_block :: "nat list \<Rightarrow> byte list" where
  "key_block (a # b # c # d # ks) = of_nat (key_byte [a, b, c, d]) # key_block ks"
| "key_block [] = []"
| "key_block ks = [of_nat (key_byte ks)]"

definition svb_stream :: "(u32 \<Rightarrow> nat) \<Rightarrow> (u32 \<Rightarrow> nat) \<Rightarrow> u32 list \<Rightarrow> byte list" where
  "svb_stream key len ys = key_block (map key ys) @ data_block len ys"

text \<open>The value sequences the filters produce: each element filtered against
  its predecessor (the anchor for the first), and the delta-transpose order,
  in which entry \<open>4 * i + j\<close> of a block of 64 is delta \<open>16 * j + i\<close> of that
  block, the elements after the last whole block keeping their order.\<close>

fun deltas :: "(u32 \<Rightarrow> u32 \<Rightarrow> u32) \<Rightarrow> u32 \<Rightarrow> u32 list \<Rightarrow> u32 list" where
  "deltas f p [] = []"
| "deltas f p (x # xs) = f x p # deltas f x xs"

definition dt_block_order :: "u32 list \<Rightarrow> u32 list" where
  "dt_block_order ds = map (\<lambda>t. ds ! (16 * (t mod 4) + t div 4)) [0..<64]"

fun dt_order :: "nat \<Rightarrow> u32 list \<Rightarrow> u32 list" where
  "dt_order 0 ds = ds"
| "dt_order (Suc n) ds = dt_block_order (take 64 ds) @ dt_order n (drop 64 ds)"

definition dt_values :: "u32 \<Rightarrow> u32 list \<Rightarrow> u32 list" where
  "dt_values previous xs = dt_order (length xs div 64) (deltas delta_encode_32 previous xs)"

section \<open>What a partial run of an encoder has established\<close>

text \<open>
  \<open>enc_inv m0 kb bound m kp dp K D\<close>: starting from buffer \<open>m0\<close> with the data
  block based at \<open>kb\<close>, the encoder has emitted the key bytes \<open>K\<close> and the data
  bytes \<open>D\<close>, its pointers stand right behind them, nothing at or beyond
  \<open>bound\<close> has changed, and as long as the key bytes end below \<open>kb\<close> the buffer
  holds \<open>K\<close> at 0 and \<open>D\<close> at \<open>kb\<close>.
\<close>

definition enc_inv :: "mem \<Rightarrow> nat \<Rightarrow> nat \<Rightarrow> mem \<Rightarrow> nat \<Rightarrow> nat \<Rightarrow> byte list \<Rightarrow> byte list \<Rightarrow> bool" where
  "enc_inv m0 kb bound m kp dp K D \<longleftrightarrow>
     kp = length K \<and> dp = kb + length D \<and> (\<forall>i\<ge>bound. m i = m0 i)
     \<and> (length K \<le> kb \<longrightarrow> load_bytes m 0 (length K) = K \<and> load_bytes m kb (length D) = D)"

section \<open>Loops as folds\<close>

text \<open>
  The loop bodies of the encoders as functions of the value they encode, and
  the loops as folds over the values.  The loops above are shown to be these
  folds; the properties of a run are then proved by induction on the list.
\<close>

definition generic_body :: "genc1 \<Rightarrow> mem \<times> nat \<times> nat \<times> byte \<times> byte \<Rightarrow> u32 \<Rightarrow> mem \<times> nat \<times> nat \<times> byte \<times> byte" where
  "generic_body encode1 s dw =
     (case s of (m, key_ptr, data_ptr, keys, shift) \<Rightarrow>
        (let (m, code, len) = encode1 m data_ptr dw;
             data_ptr = data_ptr + len;
             (m, key_ptr, keys, shift) = generic_put_key m key_ptr keys shift code
         in (m, key_ptr, data_ptr, keys, shift)))"

fun x64_tail_fold :: "enc1 \<Rightarrow> nat \<Rightarrow> mem \<times> u32 \<times> nat \<Rightarrow> u32 list \<Rightarrow> mem \<times> u32 \<times> nat" where
  "x64_tail_fold ENCODE1 i s [] = s"
| "x64_tail_fold ENCODE1 i (m, keys, data_ptr) (dw # dws) =
     x64_tail_fold ENCODE1 (i + 1) (ENCODE1 m keys data_ptr dw (i * 2)) dws"

fun x64_chunk_fold :: "enc8 \<Rightarrow> mem \<times> nat \<times> nat \<Rightarrow> u32 list \<Rightarrow> mem \<times> nat \<times> nat" where
  "x64_chunk_fold ENCODE8 (m, key_ptr, data_ptr) (a0 # a1 # a2 # a3 # b0 # b1 # b2 # b3 # dws) =
     x64_chunk_fold ENCODE8
       (ENCODE8 m key_ptr data_ptr (of_epi32 [a0, a1, a2, a3]) (of_epi32 [b0, b1, b2, b3])) dws"
| "x64_chunk_fold ENCODE8 s dws = s"

text \<open>The key buffer of the generic loops, on lists: the keys whose bytes
  have been flushed and the keys of the byte being filled.\<close>

definition feed_key :: "nat list \<times> nat list \<Rightarrow> nat \<Rightarrow> nat list \<times> nat list" where
  "feed_key s c = (case s of (pre, g) \<Rightarrow>
      if length g \<noteq> 4 then (pre, g @ [c]) else (pre @ g, [c]))"

definition generic_inv ::
  "mem \<Rightarrow> nat \<Rightarrow> nat \<Rightarrow> mem \<times> nat \<times> nat \<times> byte \<times> byte \<Rightarrow> nat list \<times> nat list \<Rightarrow> byte list \<Rightarrow> bool" where
  "generic_inv m0 kb bound s pg D \<longleftrightarrow>
     (case s of (m, kp, dp, keys, shift) \<Rightarrow> case pg of (pre, g) \<Rightarrow>
        length pre mod 4 = 0 \<and> length g \<le> 4 \<and> (\<forall>k\<in>set g. k \<le> 3)
        \<and> keys = of_nat (key_byte g) \<and> shift = of_nat (2 * length g)
        \<and> length D \<le> 4 * (length pre + length g)
        \<and> enc_inv m0 kb bound m kp dp (key_block pre) D)"

text \<open>What the proofs need from a scalar step and from an 8-element macro
  of a format with key function \<open>key\<close> and width function \<open>len\<close>.\<close>

definition genc1_spec :: "(u32 \<Rightarrow> nat) \<Rightarrow> (u32 \<Rightarrow> nat) \<Rightarrow> genc1 \<Rightarrow> bool" where
  "genc1_spec key len encode1 \<longleftrightarrow>
     (\<forall>m dp v. \<exists>bs. encode1 m dp v = (store_bytes m dp bs, of_nat (key v), len v)
        \<and> len v \<le> length bs \<and> length bs \<le> 4 \<and> take (len v) bs = payload len v)"

definition enc1_spec :: "(u32 \<Rightarrow> nat) \<Rightarrow> (u32 \<Rightarrow> nat) \<Rightarrow> enc1 \<Rightarrow> bool" where
  "enc1_spec key len ENCODE1 \<longleftrightarrow>
     (\<forall>m keys dp v shift. ENCODE1 m keys dp v shift =
        (store_bytes m dp (le_bytes32 v), keys OR push_bit shift (of_nat (key v)), dp + len v))"

definition enc8_spec :: "(u32 \<Rightarrow> nat) \<Rightarrow> (u32 \<Rightarrow> nat) \<Rightarrow> enc8 \<Rightarrow> bool" where
  "enc8_spec key len ENCODE8 \<longleftrightarrow>
     (\<forall>m kp dp as bs. length as = 4 \<and> length bs = 4 \<longrightarrow>
        (\<exists>A B. length A = 16 \<and> length B = 16
           \<and> take (length (data_block len as)) A = data_block len as
           \<and> take (length (data_block len bs)) B = data_block len bs
           \<and> ENCODE8 m kp dp (of_epi32 as) (of_epi32 bs) =
               (store_bytes
                  (store_bytes (store_bytes m dp A) (dp + length (data_block len as)) B)
                  kp (key_block (map key (as @ bs))),
                kp + 2,
                dp + length (data_block len as) + length (data_block len bs))))"

definition fmt_ok :: "(u32 \<Rightarrow> nat) \<Rightarrow> (u32 \<Rightarrow> nat) \<Rightarrow> bool" where
  "fmt_ok key len \<longleftrightarrow> (\<forall>v. key v \<le> 3 \<and> len v \<le> 4)"

text \<open>The outcome of a whole run on \<open>N\<close> elements: the returned offset is the
  length of the stream \<open>s\<close>, the buffer holds \<open>s\<close> from offset 0, and no byte
  at or beyond \<open>streamvbyte_compress_bound N\<close> has changed.\<close>

definition encoded :: "mem \<Rightarrow> nat \<Rightarrow> byte list \<Rightarrow> mem \<times> nat \<Rightarrow> bool" where
  "encoded out N s r \<longleftrightarrow>
     snd r = length s \<and> load_bytes (fst r) 0 (length s) = s
     \<and> (\<forall>i\<ge>streamvbyte_compress_bound N. fst r i = out i)"

text \<open>The key generation of the 8-element macros, seen on one element: the
  16-bit lane that \<open>_mm_movemask_epi8\<close> reads for it, and the two bits read.\<close>

definition svb1_lane :: "u32 \<Rightarrow> u16" where
  "svb1_lane v =
     adds_u16
       (min_s16
          (u16_of (packus16 (u16_of (min 1 (ucast v)) (min 1 (ucast (drop_bit 8 v)))))
                  (packus16 (u16_of (min 1 (ucast (drop_bit 16 v))) (min 1 (ucast (drop_bit 24 v))))))
          (u16_of 1 1))
       0x7F00"

definition svb0_lane :: "u32 \<Rightarrow> u16" where
  "svb0_lane v =
     push_bit 7
       (min_s16
          (packus32 (u32_of (min 1 (ucast v)) (min 1 (ucast (drop_bit 8 v)))
                            (min 1 (ucast (drop_bit 16 v))) (min 1 (ucast (drop_bit 24 v)))))
          (push_bit 8 (u16_of 1 1)))"

definition lane2 :: "u16 \<Rightarrow> nat" where
  "lane2 w = (if bit w 7 then 1 else 0) + 2 * (if bit w 15 then 1 else 0)"

text \<open>The row of an encoder permutation table for the keys \<open>r mod 4\<close>,
  \<open>r div 4 mod 4\<close>, \<open>r div 16\<close> of the three low elements, when a key \<open>k\<close>
  stands for \<open>w k\<close> bytes: the positions of the bytes that are kept, then
  zeros.  The tables of the source are shown to be these rows.\<close>

definition gen_row :: "(nat \<Rightarrow> nat) \<Rightarrow> nat \<Rightarrow> byte list" where
  "gen_row w r =
     (let idx = [0..<w (r mod 4)] @ [4..<4 + w (r div 4 mod 4)] @ [8..<8 + w (r div 16 mod 4)] @ [12..<16]
      in map of_nat idx @ replicate (16 - length idx) 0)"

definition gen_len :: "(nat \<Rightarrow> nat) \<Rightarrow> nat \<Rightarrow> nat" where
  "gen_len w k = w (k mod 4) + w (k div 4 mod 4) + w (k div 16 mod 4) + w (k div 64)"

definition svb1_width :: "nat \<Rightarrow> nat" where
  "svb1_width k = k + 1"

definition svb0_width :: "nat \<Rightarrow> nat" where
  "svb0_width k = [0, 1, 2, 4] ! k"

section \<open>Word and memory facts\<close>

lemma u32_le_alt:
  "(v::u32) \<le> 0xFF \<longleftrightarrow> unat v < 256"
  "(v::u32) \<le> 0xFFFF \<longleftrightarrow> unat v < 65536"
  "(v::u32) \<le> 0xFFFFFF \<longleftrightarrow> unat v < 16777216"
  "(v::u32) > 0xFF \<longleftrightarrow> unat v \<ge> 256"
  "(v::u32) > 0xFFFF \<longleftrightarrow> unat v \<ge> 65536"
  "(v::u32) > 0xFFFFFF \<longleftrightarrow> unat v \<ge> 16777216"
  by (auto simp add: word_le_nat_alt word_less_nat_alt)

lemma u32_eq_0_alt: "(v::u32) = 0 \<longleftrightarrow> unat v = 0"
  by (simp add: unat_0_iff)

lemma nat_or_mask: "(n::nat) OR mask k = n div 2^k * 2^k + mask k"
proof -
  have "push_bit k (drop_bit k n) + mask k = push_bit k (drop_bit k n) OR (mask k :: nat)"
    by (rule disjunctive_add_eq_or) (rule bit_eqI, auto simp add: bit_simps)
  also have "\<dots> = n OR mask k"
    by (rule bit_eqI) (auto simp add: bit_simps)
  finally show ?thesis by (simp add: push_bit_eq_mult drop_bit_eq_div)
qed

lemma nat_and_field: "(n::nat) AND push_bit j (mask k) = (n div 2^j mod 2^k) * 2^j"
proof -
  have "n AND push_bit j (mask k) = push_bit j (take_bit k (drop_bit j n))"
    by (rule bit_eqI) (auto simp add: bit_simps)
  then show ?thesis by (simp add: push_bit_eq_mult drop_bit_eq_div take_bit_eq_mod)
qed

lemma unat_or_low24: "unat ((w::u32) OR 0xFFFFFF) = unat w div 16777216 * 16777216 + 16777215"
proof -
  have "unat (w OR 0xFFFFFF) = unat w OR mask 24"
    by (simp add: unsigned_or_eq mask_eq_exp_minus_1)
  then show ?thesis by (simp add: nat_or_mask) (simp add: mask_eq_exp_minus_1)
qed

lemma unat_and_FF0000: "unat ((w::u32) AND 0x00FF0000) = (unat w div 65536 mod 256) * 65536"
proof -
  have "unat (w AND 0x00FF0000) = unat w AND push_bit 16 (mask 8)"
    by (simp add: unsigned_and_eq mask_eq_exp_minus_1 push_bit_eq_mult)
  then show ?thesis by (simp add: nat_and_field)
qed

lemma unat_add32: "unat ((a::u32) + b) = (unat a + unat b) mod 4294967296"
  by (simp add: unat_word_ariths)

lemma unat_shr8: "unat (drop_bit 8 (v::u32)) = unat v div 256"
  by (simp add: drop_bit_eq_div unat_div_distrib)

lemma unat_shr24: "unat (drop_bit 24 (v::u32)) = unat v div 16777216"
  by (simp add: drop_bit_eq_div unat_div_distrib)

lemma shr16_ne0: "drop_bit 16 (v::u32) \<noteq> 0 \<longleftrightarrow> unat v \<ge> 65536"
proof -
  have "drop_bit 16 v = 0 \<longleftrightarrow> unat (drop_bit 16 v) = 0" by (simp add: unat_0_iff)
  also have "\<dots> \<longleftrightarrow> unat v < 65536"
    by (simp add: drop_bit_eq_div unat_div_distrib Euclidean_Rings.div_eq_0_iff)
  finally show ?thesis by auto
qed

lemma shr16_ge: "256 \<le> unat (drop_bit 16 (v::u32)) \<longleftrightarrow> unat v \<ge> 16777216"
  by (simp add: drop_bit_eq_div unat_div_distrib less_eq_div_iff_mult_less_eq)

lemma load_bytes_0: "load_bytes m p 0 = []"
  by (simp add: load_bytes_def)

lemma load_bytes_Suc: "load_bytes m p (Suc n) = m p # load_bytes m (Suc p) n"
  by (simp add: load_bytes_def upt_conv_Cons del: upt_Suc)

lemma load_bytes_numeral:
  "load_bytes m p (numeral k) = m p # load_bytes m (Suc p) (pred_numeral k)"
  by (simp only: numeral_eq_Suc load_bytes_Suc)

lemmas load_bytes_simps = load_bytes_0 load_bytes_Suc load_bytes_numeral

lemma length_load_bytes: "length (load_bytes m p n) = n"
  by (simp add: load_bytes_def)

lemma nth_load_bytes: "i < n \<Longrightarrow> load_bytes m p n ! i = m (p + i)"
  by (simp add: load_bytes_def)

lemma load_store_bytes: "load_bytes (store_bytes m p bs) p (length bs) = bs"
  by (auto simp add: load_bytes_def store_bytes_def intro!: nth_equalityI)

lemma load_store_bytes_take:
  "n \<le> length bs \<Longrightarrow> load_bytes (store_bytes m p bs) p n = take n bs"
  by (auto simp add: load_bytes_def store_bytes_def intro!: nth_equalityI)

lemma length_le_bytes32: "length (le_bytes32 v) = 4"
  by (simp add: le_bytes32_def)

section \<open>Filter identities\<close>

lemma sdb31: "signed_drop_bit 31 (v::u32) = (if bit v 31 then - 1 else 0)"
  by (rule bit_word_eqI) (auto simp add: bit_signed_drop_bit_iff not_le)

lemma and1: "(v::u32) AND 1 = (if bit v 0 then 1 else 0)"
  apply (rule bit_word_eqI)
  apply (auto simp add: bit_simps)
  apply (case_tac n; simp)
  done

lemma dbl_push: "(v::u32) + v = push_bit 1 v"
  by (simp add: push_bit_eq_mult)

lemma bit_dbl: "bit ((v::u32) + v) n \<longleftrightarrow> 0 < n \<and> n < 32 \<and> bit v (n - 1)"
  unfolding dbl_push by (auto simp add: bit_push_bit_iff simp del: push_bit_Suc push_bit_of_Suc_0)

lemma zigzag_roundtrip: "zigzag_decode_32 (zigzag_encode_32 v) = v"
  unfolding zigzag_decode_32_def zigzag_encode_32_def sdb31 and1
  apply (rule bit_word_eqI)
  apply (auto simp add: bit_simps bit_dbl)
  apply (case_tac [!] "n = 31")
  apply simp_all
  done

lemma delta_roundtrip: "delta_decode_32 (delta_encode_32 v p) p = v"
  by (simp add: delta_decode_32_def delta_encode_32_def)

text \<open>
  Claim C9.  Zigzag decoding undoes zigzag encoding and delta decoding undoes
  delta encoding, for every 32-bit value and every 32-bit predecessor, all
  arithmetic being modulo \<open>2^32\<close>; and the encoder's
  \<open>(val + val) ^ ((int32_t)val >> 31)\<close> is the value
  \<open>(v << 1) ^ (v >> 31)\<close> (arithmetic shift) of the design text.
\<close>

theorem filter_identities:
  "zigzag_decode_32 (zigzag_encode_32 v) = v
   \<and> delta_decode_32 (delta_encode_32 v p) p = v
   \<and> zigzag_encode_32 v = push_bit 1 v XOR signed_drop_bit 31 v"
proof (intro conjI)
  show "zigzag_decode_32 (zigzag_encode_32 v) = v" by (rule zigzag_roundtrip)
  show "delta_decode_32 (delta_encode_32 v p) p = v" by (rule delta_roundtrip)
  show "zigzag_encode_32 v = push_bit 1 v XOR signed_drop_bit 31 v"
    by (simp only: zigzag_encode_32_def dbl_push)
qed

section \<open>SVB1 scalar key derivation\<close>

lemma svb1_trick_nat:
  fixes x :: nat
  assumes "x < 16777216"
  shows "((x + ((x + 16776960) mod 4294967296 div 16777216 * 16777216 + 16777215)) mod 4294967296
            div 16777216 * 16777216 + 16777215 + x div 65536 mod 256 * 65536) mod 4294967296 div 16777216
         = (if x = 0 then 0 else if x < 256 then 1 else if x < 65536 then 2 else 3)"
proof -
  consider "x = 0" | "0 < x \<and> x < 256" | "256 \<le> x \<and> x < 65536" | "65536 \<le> x"
    by linarith
  then show ?thesis
  proof cases
    case 1 then show ?thesis by simp
  next
    case 2
    then have a: "(x + 16776960) div 16777216 = 0" by simp
    have b: "x div 65536 = 0" using 2 by simp
    have c: "(x + 16777215) div 16777216 = 1" using 2 by (simp add: div_nat_eqI)
    show ?thesis using 2 by (simp add: a b c div_nat_eqI)
  next
    case 3
    then have a: "(x + 16776960) div 16777216 = 1" by (simp add: div_nat_eqI)
    have b: "x div 65536 = 0" using 3 by simp
    have c: "(x + 33554431) div 16777216 = 2" using 3 by (simp add: div_nat_eqI)
    show ?thesis using 3 by (simp add: a b c div_nat_eqI)
  next
    case 4
    then have a: "(x + 16776960) div 16777216 = 1" using assms by (simp add: div_nat_eqI)
    have c: "(x + 33554431) div 16777216 = 2" using 4 assms by (simp add: div_nat_eqI)
    have d1: "1 \<le> x div 65536" using 4 by (simp add: div_greater_zero_iff Suc_le_eq)
    have d2: "x div 65536 < 256" using assms by (simp add: div_less_iff_less_mult)
    have d3: "x div 65536 mod 256 = x div 65536" using d2 by simp
    have e: "(50331647 + x div 65536 * 65536) div 16777216 = 3"
      using d1 d2 by (simp add: div_nat_eqI)
    show ?thesis using 4 assms by (simp add: a c d3 e)
  qed
qed

lemma svb1_x64_code_unat: "unat (snd (svb1_encode1_x64 m dst v)) = svb1_key_spec v"
proof -
  define x where "x = unat v div 256"
  have xlt: "x < 16777216" unfolding x_def using unsigned_less[of v, where ?'a=nat] by simp
  have c: "(16776960::nat) mod 2 ^ LENGTH(32) = 16776960" by simp
  have k1: "x = 0 \<longleftrightarrow> unat v < 256" unfolding x_def by (simp add: Euclidean_Rings.div_eq_0_iff)
  have k2: "x < 256 \<longleftrightarrow> unat v < 65536" unfolding x_def by (simp add: div_less_iff_less_mult)
  have k3: "x < 65536 \<longleftrightarrow> unat v < 16777216" unfolding x_def by (simp add: div_less_iff_less_mult)
  have k: "svb1_key_spec v = (if x = 0 then 0 else if x < 256 then 1 else if x < 65536 then 2 else 3)"
    unfolding svb1_key_spec_def u32_le_alt k1 k2 k3 ..
  have "unat (snd (svb1_encode1_x64 m dst v)) =
    ((x + ((x + 16776960) mod 4294967296 div 16777216 * 16777216 + 16777215)) mod 4294967296
            div 16777216 * 16777216 + 16777215 + x div 65536 mod 256 * 65536) mod 4294967296 div 16777216"
    unfolding svb1_encode1_x64_def Let_def snd_conv x_def
    by (simp only: unat_shr8 unat_shr24 unat_add32 unat_or_low24 unat_and_FF0000 unat_numeral c)
  also have "\<dots> = svb1_key_spec v" unfolding k by (rule svb1_trick_nat[OF xlt])
  finally show ?thesis .
qed

lemma svb1_key_spec_le3: "svb1_key_spec v \<le> 3"
  by (simp add: svb1_key_spec_def)

lemma svb1_x64_code: "snd (svb1_encode1_x64 m dst v) = of_nat (svb1_key_spec v)"
  by (simp flip: svb1_x64_code_unat[of m dst v])

lemma svb1_x64_mem: "fst (svb1_encode1_x64 m dst v) = svb_storeu_u32 m dst v"
  by (simp add: svb1_encode1_x64_def Let_def)

lemma svb1_generic_code_unat: "unat (snd (svb1_encode1_generic m dst v)) = svb1_key_spec v"
  unfolding svb1_encode1_generic_def Let_def svb1_key_spec_def
  by (simp add: shr16_ne0 u32_le_alt shr16_ge)

lemma svb1_generic_code: "snd (svb1_encode1_generic m dst v) = of_nat (svb1_key_spec v)"
  by (simp flip: svb1_generic_code_unat[of m dst v])

lemma svb1_generic_bytes:
  "load_bytes (fst (svb1_encode1_generic m dst v)) dst (svb1_key_spec v + 1)
     = take (svb1_key_spec v + 1) (le_bytes32 v)"
proof -
  consider "unat v < 256" | "256 \<le> unat v \<and> unat v < 65536"
    | "65536 \<le> unat v \<and> unat v < 16777216" | "16777216 \<le> unat v" by linarith
  then show ?thesis
  proof cases
    case 1
    then have k: "svb1_key_spec v = 0" by (simp add: svb1_key_spec_def u32_le_alt)
    show ?thesis unfolding k using 1
      by (simp add: svb1_encode1_generic_def Let_def shr16_ne0 u32_le_alt shr16_ge load_bytes_simps le_bytes32_def)
  next
    case 2
    then have k: "svb1_key_spec v = 1" by (simp add: svb1_key_spec_def u32_le_alt)
    show ?thesis unfolding k using 2
      by (simp add: svb1_encode1_generic_def Let_def shr16_ne0 u32_le_alt shr16_ge load_bytes_simps le_bytes32_def)
  next
    case 3
    then have k: "svb1_key_spec v = 2" by (simp add: svb1_key_spec_def u32_le_alt)
    show ?thesis unfolding k using 3
      by (simp add: svb1_encode1_generic_def Let_def shr16_ne0 u32_le_alt shr16_ge load_bytes_simps le_bytes32_def
             drop_bit_drop_bit)
  next
    case 4
    then have k: "svb1_key_spec v = 3" by (simp add: svb1_key_spec_def u32_le_alt)
    show ?thesis unfolding k using 4
      by (simp add: svb1_encode1_generic_def Let_def shr16_ne0 u32_le_alt shr16_ge load_bytes_simps le_bytes32_def
             drop_bit_drop_bit)
  qed
qed

lemma svb1_x64_bytes:
  "load_bytes (fst (svb1_encode1_x64 m dst v)) dst (svb1_key_spec v + 1)
     = take (svb1_key_spec v + 1) (le_bytes32 v)"
  unfolding svb1_x64_mem svb_storeu_u32_def
  using svb1_key_spec_le3[of v] by (simp add: load_store_bytes_take length_le_bytes32)

lemma svb1_x64_bytes4: "load_bytes (fst (svb1_encode1_x64 m dst v)) dst 4 = le_bytes32 v"
  unfolding svb1_x64_mem svb_storeu_u32_def
  using load_store_bytes[of m dst "le_bytes32 v"] by (simp add: length_le_bytes32)

section \<open>SVB0 scalar key derivation\<close>

lemma svb0_key_spec_le3: "svb0_key_spec v \<le> 3"
  by (simp add: svb0_key_spec_def)

lemma svb0_len_spec_le4: "svb0_len_spec v \<le> 4"
  by (simp add: svb0_len_spec_def svb0_key_spec_def)

lemma svb0_len_spec_cases:
  "svb0_len_spec v = (if v = 0 then 0 else if v \<le> 0xFF then 1 else if v \<le> 0xFFFF then 2 else 4)"
  by (simp add: svb0_len_spec_def svb0_key_spec_def)

lemma SVB0_ENCODE1_eq:
  "SVB0_ENCODE1 m keys dp v shift =
     (svb_storeu_u32 m dp v,
      ucast (ucast keys OR push_bit shift (of_nat (svb0_key_spec v) :: u64)),
      dp + svb0_len_spec v)"
proof -
  consider "unat v = 0" | "0 < unat v \<and> unat v < 256" | "256 \<le> unat v \<and> unat v < 65536"
    | "65536 \<le> unat v" by linarith
  then show ?thesis
    by cases (simp_all add: SVB0_ENCODE1_def Let_def svb0_len_spec_cases svb0_key_spec_def
        u32_le_alt u32_eq_0_alt)
qed

lemma svb0_generic_eq:
  "snd (svb0_encode1_generic m dst v) = (of_nat (svb0_key_spec v), svb0_len_spec v)"
proof -
  consider "unat v = 0" | "0 < unat v \<and> unat v < 256" | "256 \<le> unat v \<and> unat v < 65536"
    | "65536 \<le> unat v" by linarith
  then show ?thesis
    by cases (simp_all add: svb0_encode1_generic_def Let_def svb0_len_spec_cases svb0_key_spec_def
        u32_le_alt u32_eq_0_alt)
qed





section \<open>Stores and the run invariant\<close>

lemma store_bytes_apply:
  "store_bytes m p bs i = (if p \<le> i \<and> i < p + length bs then bs ! (i - p) else m i)"
  by (simp add: store_bytes_def)

lemma store_bytes_outside: "i < p \<or> p + length bs \<le> i \<Longrightarrow> store_bytes m p bs i = m i"
  by (auto simp add: store_bytes_def)

lemma load_bytes_eq_iff:
  "load_bytes m p n = bs \<longleftrightarrow> length bs = n \<and> (\<forall>i<n. m (p + i) = bs ! i)"
  by (auto simp add: load_bytes_def list_eq_iff_nth_eq)

lemma load_bytes_store_below:
  "q + length bs \<le> p \<Longrightarrow> load_bytes (store_bytes m q bs) p n = load_bytes m p n"
  by (simp add: load_bytes_eq_iff length_load_bytes nth_load_bytes store_bytes_def)

lemma load_bytes_store_above:
  "p + n \<le> q \<Longrightarrow> load_bytes (store_bytes m q bs) p n = load_bytes m p n"
  by (simp add: load_bytes_eq_iff length_load_bytes nth_load_bytes store_bytes_def)

lemma load_bytes_append:
  "load_bytes m p (a + b) = load_bytes m p a @ load_bytes m (p + a) b"
proof (rule nth_equalityI)
  show "length (load_bytes m p (a + b)) = length (load_bytes m p a @ load_bytes m (p + a) b)"
    by (simp add: length_load_bytes)
  fix i assume "i < length (load_bytes m p (a + b))"
  then have i: "i < a + b" by (simp add: length_load_bytes)
  show "load_bytes m p (a + b) ! i = (load_bytes m p a @ load_bytes m (p + a) b) ! i"
  proof (cases "i < a")
    case True
    then show ?thesis using i by (simp add: nth_append length_load_bytes nth_load_bytes)
  next
    case False
    then have "i - a < b" using i by simp
    then show ?thesis using i False by (simp add: nth_append length_load_bytes nth_load_bytes)
  qed
qed

lemma fun_upd_store1: "m(p := a) = store_bytes m p [a]"
  by (auto simp add: store_bytes_def fun_eq_iff)

lemma fun_upd_store2: "m(p := a, p + 1 := b) = store_bytes m p [a, b]"
proof
  fix i
  consider "i < p" | "i = p" | "i = p + 1" | "p + 2 \<le> i" by linarith
  then show "(m(p := a, p + 1 := b)) i = store_bytes m p [a, b] i"
    by cases (simp_all add: store_bytes_def)
qed

lemma fun_upd_store4:
  "m(p := a, p + 1 := b, p + 2 := c, p + 3 := d) = store_bytes m p [a, b, c, d]"
proof
  fix i
  consider "i < p" | "i = p" | "i = p + 1" | "i = p + 2" | "i = p + 3" | "p + 4 \<le> i" by linarith
  then show "(m(p := a, p + 1 := b, p + 2 := c, p + 3 := d)) i = store_bytes m p [a, b, c, d] i"
    by cases (simp_all add: store_bytes_def)
qed

lemma enc_inv_init: "enc_inv m0 kb bound m0 0 kb [] []"
  by (simp add: enc_inv_def load_bytes_0)

lemma enc_inv_data:
  assumes inv: "enc_inv m0 kb bound m kp dp K D"
    and n: "n \<le> length bs" and b: "dp + length bs \<le> bound"
  shows "enc_inv m0 kb bound (store_bytes m dp bs) kp (dp + n) K (D @ take n bs)"
proof -
  from inv have kp: "kp = length K" and dp: "dp = kb + length D"
    and fr: "\<forall>i\<ge>bound. m i = m0 i"
    and st: "length K \<le> kb \<longrightarrow> load_bytes m 0 (length K) = K \<and> load_bytes m kb (length D) = D"
    by (simp_all add: enc_inv_def)
  have fr': "\<forall>i\<ge>bound. store_bytes m dp bs i = m0 i"
    using fr b by (simp add: store_bytes_def)
  have st': "load_bytes (store_bytes m dp bs) 0 (length K) = K
     \<and> load_bytes (store_bytes m dp bs) kb (length (D @ take n bs)) = D @ take n bs"
    if le: "length K \<le> kb"
  proof -
    from st le have k: "load_bytes m 0 (length K) = K" and d: "load_bytes m kb (length D) = D"
      by simp_all
    have 1: "load_bytes (store_bytes m dp bs) 0 (length K) = K"
      using le dp k by (simp add: load_bytes_store_above)
    have 2: "load_bytes (store_bytes m dp bs) kb (length D) = D"
      using dp d by (simp add: load_bytes_store_above)
    have 3: "load_bytes (store_bytes m dp bs) dp n = take n bs"
      using n by (rule load_store_bytes_take)
    have "length (D @ take n bs) = length D + n" using n by simp
    then show ?thesis using 1 2 3 dp by (simp add: load_bytes_append)
  qed
  show ?thesis
    unfolding enc_inv_def using kp dp fr' st' n by simp
qed

lemma enc_inv_key:
  assumes inv: "enc_inv m0 kb bound m kp dp K D"
    and b: "kp + length ks \<le> bound"
  shows "enc_inv m0 kb bound (store_bytes m kp ks) (kp + length ks) dp (K @ ks) D"
proof -
  from inv have kp: "kp = length K" and dp: "dp = kb + length D"
    and fr: "\<forall>i\<ge>bound. m i = m0 i"
    and st: "length K \<le> kb \<longrightarrow> load_bytes m 0 (length K) = K \<and> load_bytes m kb (length D) = D"
    by (simp_all add: enc_inv_def)
  have fr': "\<forall>i\<ge>bound. store_bytes m kp ks i = m0 i"
    using fr b by (simp add: store_bytes_def)
  have st': "load_bytes (store_bytes m kp ks) 0 (length (K @ ks)) = K @ ks
     \<and> load_bytes (store_bytes m kp ks) kb (length D) = D"
    if le: "length (K @ ks) \<le> kb"
  proof -
    from le have le': "length K \<le> kb" by simp
    from st le' have k: "load_bytes m 0 (length K) = K" and d: "load_bytes m kb (length D) = D"
      by simp_all
    have 1: "load_bytes (store_bytes m kp ks) 0 (length K) = K"
      using kp k by (simp add: load_bytes_store_above)
    have 2: "load_bytes (store_bytes m kp ks) kp (length ks) = ks"
      by (rule load_store_bytes)
    have 3: "load_bytes (store_bytes m kp ks) kb (length D) = D"
      using le kp d by (simp add: load_bytes_store_below)
    show ?thesis using 1 2 3 kp by (simp add: load_bytes_append)
  qed
  show ?thesis
    unfolding enc_inv_def using kp dp fr' st' by simp
qed

section \<open>Packing keys\<close>

lemma key_byte_less: "\<forall>k\<in>set g. k \<le> 3 \<Longrightarrow> key_byte g < 4 ^ length g"
proof (induction g)
  case Nil then show ?case by simp
next
  case (Cons k g)
  then have "key_byte g < 4 ^ length g" and "k \<le> 3" by simp_all
  then have "k + 4 * key_byte g < 4 + 4 * key_byte g" and "4 + 4 * key_byte g \<le> 4 * 4 ^ length g"
    by simp_all
  then show ?case by simp
qed

lemma key_byte_snoc: "key_byte (g @ [c]) = key_byte g + c * 4 ^ length g"
  by (induction g) (simp_all add: algebra_simps)

lemma key_byte_append: "key_byte (g @ h) = key_byte g + 4 ^ length g * key_byte h"
  by (induction g) (simp_all add: algebra_simps)

lemma word_or_push_bit_add:
  fixes x y :: "'a::len word"
  assumes "take_bit n x = x"
  shows "x OR push_bit n y = x + push_bit n y"
proof -
  have "x AND push_bit n y = 0"
  proof (rule bit_word_eqI)
    fix i assume "i < LENGTH('a)"
    have "bit x i \<Longrightarrow> i < n" using assms by (metis bit_take_bit_iff)
    then show "bit (x AND push_bit n y) i = bit (0 :: 'a word) i"
      by (auto simp add: bit_simps)
  qed
  then show ?thesis by (metis disjunctive_add_eq_or)
qed

lemma of_nat_or_push_bit:
  assumes "a < 2 ^ n"
  shows "(of_nat a :: 'a::len word) OR push_bit n (of_nat c) = of_nat (a + c * 2 ^ n)"
proof -
  have "take_bit n (of_nat a :: 'a word) = of_nat a"
    using assms by (simp add: take_bit_of_nat take_bit_nat_eq_self)
  then have "(of_nat a :: 'a word) OR push_bit n (of_nat c) = of_nat a + push_bit n (of_nat c)"
    by (rule word_or_push_bit_add)
  then show ?thesis by (simp add: push_bit_eq_mult)
qed

lemma key_byte_or:
  assumes "\<forall>k\<in>set g. k \<le> 3"
  shows "(of_nat (key_byte g) :: 'a::len word) OR push_bit (2 * length g) (of_nat c)
          = of_nat (key_byte (g @ [c]))"
proof -
  have "key_byte g < 2 ^ (2 * length g)"
    using key_byte_less[OF assms] by (simp add: power_mult)
  then show ?thesis
    by (simp add: of_nat_or_push_bit key_byte_snoc power_mult)
qed

lemma div4_round: "n mod 4 = 0 \<Longrightarrow> (n + 3) div 4 = n div (4::nat)"
  by presburger

lemma length_key_block: "length (key_block ks) = (length ks + 3) div 4"
  by (induction ks rule: key_block.induct) simp_all

lemma key_block_append:
  "length a mod 4 = 0 \<Longrightarrow> key_block (a @ b) = key_block a @ key_block b"
proof (induction a rule: key_block.induct)
  case (1 a b c d ks)
  then have "length ks mod 4 = 0" by simp
  then show ?case using 1 by simp
qed simp_all

lemma key_block_group:
  "g \<noteq> [] \<Longrightarrow> length g \<le> 4 \<Longrightarrow> key_block g = [of_nat (key_byte g)]"
  by (induction g rule: key_block.induct) simp_all

section \<open>The generic loops\<close>

lemma feed_key_app: "feed_key (pre, g) c = (pre', g') \<Longrightarrow> pre' @ g' = pre @ g @ [c]"
  by (auto simp add: feed_key_def split: if_splits)

lemma feed_key_ne: "feed_key (pre, g) c = (pre', g') \<Longrightarrow> g' \<noteq> []"
  by (auto simp add: feed_key_def split: if_splits)

lemma unat_shift_byte: "n \<le> 4 \<Longrightarrow> unat (of_nat (2 * n) :: byte) = 2 * n"
proof -
  assume "n \<le> 4"
  then consider "n = 0" | "n = 1" | "n = 2" | "n = 3" | "n = 4" by linarith
  then show ?thesis by cases simp_all
qed

lemma generic_put_key_inv:
  assumes inv: "generic_inv m0 kb bound (m, kp, dp, keys, shift) (pre, g) D"
    and c: "c \<le> 3"
    and cap: "length pre div 4 + 1 \<le> bound"
    and D': "length D' \<le> length D + 4" 
    and e: "enc_inv m0 kb bound m kp dp (key_block pre) D \<Longrightarrow> enc_inv m0 kb bound m1 kp dp1 (key_block pre) D'"
  shows "generic_inv m0 kb bound
           (case generic_put_key m1 kp keys shift (of_nat c) of
              (m', kp', keys', shift') \<Rightarrow> (m', kp', dp1, keys', shift'))
           (feed_key (pre, g) c) D'"
proof -
  from inv have pre4: "length pre mod 4 = 0" and g4: "length g \<le> 4" and gk: "\<forall>k\<in>set g. k \<le> 3"
    and keys: "keys = of_nat (key_byte g)" and shift: "shift = of_nat (2 * length g)"
    and lD: "length D \<le> 4 * (length pre + length g)"
    and ei: "enc_inv m0 kb bound m kp dp (key_block pre) D"
    by (simp_all add: generic_inv_def)
  note ei1 = e[OF ei]
  have ush: "unat shift = 2 * length g" unfolding shift using g4 by (rule unat_shift_byte)
  have sh8: "shift \<noteq> 8 \<longleftrightarrow> length g \<noteq> 4"
    using ush by (auto simp add: word_unat_eq_iff)
  show ?thesis
  proof (cases "length g = 4")
    case False
    then have l3: "length g \<le> 3" using g4 by simp
    have k': "keys OR push_bit (unat shift) (of_nat c) = of_nat (key_byte (g @ [c]))"
      unfolding keys ush by (rule key_byte_or[OF gk])
    have s': "shift + 2 = of_nat (2 * length (g @ [c]))" unfolding shift by simp
    show ?thesis
      using False sh8 pre4 l3 gk c k' s' lD D' ei1
      by (simp add: generic_put_key_def feed_key_def generic_inv_def)
  next
    case True
    have kpl: "kp = length (key_block pre)" using ei by (simp add: enc_inv_def)
    have gne: "g \<noteq> []" using True by auto
    have "key_block g = [of_nat (key_byte g)]" using gne g4 by (rule key_block_group)
    then have kb1: "key_block (pre @ g) = key_block pre @ [keys]"
      unfolding keys using key_block_append[OF pre4, of g] by simp
    have "enc_inv m0 kb bound (store_bytes m1 kp [keys]) (kp + length [keys]) dp1 (key_block pre @ [keys]) D'"
      using ei1 cap kpl pre4 by (intro enc_inv_key) (simp_all add: length_key_block div4_round)
    then have ei2: "enc_inv m0 kb bound (m1(kp := keys)) (kp + 1) dp1 (key_block (pre @ g)) D'"
      by (simp add: fun_upd_store1 kb1)
    have "(of_nat c :: byte) = of_nat (key_byte [c])" by simp
    then show ?thesis
      using True sh8 pre4 c lD D' ei2
      by (simp add: generic_put_key_def feed_key_def generic_inv_def)
  qed
qed

lemma generic_body_inv:
  assumes spec: "genc1_spec key len E" and fk: "fmt_ok key len"
    and inv: "generic_inv m0 kb bound s (pre, g) D"
    and capk: "length pre div 4 + 1 \<le> bound"
    and capd: "kb + length D + 4 \<le> bound"
  shows "generic_inv m0 kb bound (generic_body E s v) (feed_key (pre, g) (key v)) (D @ payload len v)"
proof -
  obtain m kp dp keys shift where s: "s = (m, kp, dp, keys, shift)" by (cases s) auto
  from spec obtain bs where E: "E m dp v = (store_bytes m dp bs, of_nat (key v), len v)"
    and l1: "len v \<le> length bs" and l2: "length bs \<le> 4" and tk: "take (len v) bs = payload len v"
    unfolding genc1_spec_def by blast
  have kv: "key v \<le> 3" using fk by (simp add: fmt_ok_def)
  have lp: "length (D @ payload len v) \<le> length D + 4"
    using l1 l2 tk[symmetric] by simp
  have step: "enc_inv m0 kb bound (store_bytes m dp bs) kp (dp + len v) (key_block pre) (D @ payload len v)"
    if ei: "enc_inv m0 kb bound m kp dp (key_block pre) D"
  proof -
    have "dp = kb + length D" using ei by (simp add: enc_inv_def)
    then have "dp + length bs \<le> bound" using capd l2 by simp
    from enc_inv_data[OF ei l1 this] show ?thesis by (simp add: tk)
  qed
  obtain m' kp' keys' shift' where
    gp: "generic_put_key (store_bytes m dp bs) kp keys shift (of_nat (key v)) = (m', kp', keys', shift')"
    by (cases "generic_put_key (store_bytes m dp bs) kp keys shift (of_nat (key v))") auto
  have "generic_inv m0 kb bound
           (case generic_put_key (store_bytes m dp bs) kp keys shift (of_nat (key v)) of
              (m', kp', keys', shift') \<Rightarrow> (m', kp', dp + len v, keys', shift'))
           (feed_key (pre, g) (key v)) (D @ payload len v)"
    using inv[unfolded s] kv capk lp step by (rule generic_put_key_inv)
  then show ?thesis
    by (simp add: s generic_body_def E Let_def gp)
qed

lemma generic_fold_inv:
  assumes spec: "genc1_spec key len E" and fk: "fmt_ok key len"
    and capk: "(N + 3) div 4 \<le> bound" and capd: "kb + 4 * N \<le> bound"
  shows "generic_inv m0 kb bound s pg D \<Longrightarrow> length (fst pg) + length (snd pg) + length vs \<le> N
     \<Longrightarrow> generic_inv m0 kb bound (foldl (generic_body E) s vs) (foldl feed_key pg (map key vs))
           (D @ data_block len vs)"
proof (induction vs arbitrary: s pg D)
  case Nil
  then show ?case by (simp add: data_block_def)
next
  case (Cons v vs)
  obtain pre g where pg: "pg = (pre, g)" by (cases pg) auto
  obtain m kp dp keys shift where s: "s = (m, kp, dp, keys, shift)" by (cases s) auto
  have n: "length pre + length g + 1 + length vs \<le> N" using Cons.prems(2) pg by simp
  have lD: "length D \<le> 4 * (length pre + length g)"
    using Cons.prems(1) by (simp add: generic_inv_def pg s)
  have ck: "length pre div 4 + 1 \<le> bound"
  proof -
    have "length pre div 4 + 1 \<le> (N + 3) div 4" using n by presburger
    then show ?thesis using capk by simp
  qed
  have cd: "kb + length D + 4 \<le> bound" using n lD capd by simp
  have 1: "generic_inv m0 kb bound (generic_body E s v) (feed_key (pre, g) (key v)) (D @ payload len v)"
    using spec fk Cons.prems(1)[unfolded pg] ck cd by (rule generic_body_inv)
  obtain pre' g' where f: "feed_key (pre, g) (key v) = (pre', g')" by (cases "feed_key (pre, g) (key v)") auto
  have "length (pre' @ g') = length (pre @ g @ [key v])"
    using feed_key_app[OF f] by simp
  then have 2: "length (fst (feed_key (pre, g) (key v))) + length (snd (feed_key (pre, g) (key v))) + length vs \<le> N"
    using n f by simp
  from Cons.IH[OF 1 2] show ?case by (simp add: pg data_block_def)
qed

lemma feed_fold_app: "foldl feed_key (pre, g) ks = (pre', g') \<Longrightarrow> pre' @ g' = pre @ g @ ks"
proof (induction ks arbitrary: pre g)
  case Nil then show ?case by simp
next
  case (Cons k ks)
  obtain p1 g1 where f: "feed_key (pre, g) k = (p1, g1)" by (cases "feed_key (pre, g) k") auto
  from Cons.prems have "foldl feed_key (p1, g1) ks = (pre', g')" by (simp add: f)
  from Cons.IH[OF this] feed_key_app[OF f] show ?case by simp
qed

lemma feed_fold_ne: "ks \<noteq> [] \<Longrightarrow> snd (foldl feed_key pg ks) \<noteq> []"
proof (induction ks arbitrary: pg rule: rev_induct)
  case Nil then show ?case by simp
next
  case (snoc k ks)
  obtain p1 g1 where f: "foldl feed_key pg ks = (p1, g1)" by (cases "foldl feed_key pg ks") auto
  obtain p2 g2 where f2: "feed_key (p1, g1) k = (p2, g2)" by (cases "feed_key (p1, g1) k") auto
  show ?case using feed_key_ne[OF f2] by (simp add: f f2)
qed

lemma generic_flush:
  assumes inv: "generic_inv m0 kb bound (m, kp, dp, keys, shift) (pre, g) D"
    and gne: "g \<noteq> []" and cap: "length pre div 4 + 1 \<le> bound"
  shows "enc_inv m0 kb bound (m(kp := keys)) (kp + 1) dp (key_block (pre @ g)) D"
proof -
  from inv have pre4: "length pre mod 4 = 0" and g4: "length g \<le> 4"
    and keys: "keys = of_nat (key_byte g)"
    and ei: "enc_inv m0 kb bound m kp dp (key_block pre) D"
    by (simp_all add: generic_inv_def)
  have kpl: "kp = length (key_block pre)" using ei by (simp add: enc_inv_def)
  have "key_block g = [of_nat (key_byte g)]" using gne g4 by (rule key_block_group)
  then have kb1: "key_block (pre @ g) = key_block pre @ [keys]"
    unfolding keys using key_block_append[OF pre4, of g] by simp
  have "enc_inv m0 kb bound (store_bytes m kp [keys]) (kp + length [keys]) dp (key_block pre @ [keys]) D"
    using ei cap kpl pre4 by (intro enc_inv_key) (simp_all add: length_key_block div4_round)
  then show ?thesis by (simp add: fun_upd_store1 kb1)
qed

lemma take_drop_step:
  "j < length xs \<Longrightarrow> take (Suc n) (drop j xs) = xs ! j # take n (drop (Suc j) xs)"
  by (simp add: Cons_nth_drop_Suc[symmetric])

lemma generic_delta_loop_unfold:
  "generic_delta_loop E filt inp base count i m kp dp keys shift previous =
     (case generic_body E (m, kp, dp, keys, shift) (filt (inp ! (base + i)) previous) of
        (m', kp', dp', keys', shift') \<Rightarrow>
          if i + 1 < count
          then generic_delta_loop E filt inp base count (i + 1) m' kp' dp' keys' shift' (inp ! (base + i))
          else (m', kp', dp', keys', shift', inp ! (base + i)))"
  by (subst generic_delta_loop.simps) (simp add: generic_body_def Let_def split: prod.splits)

lemma generic_delta_loop_fold:
  "count - i = Suc n \<Longrightarrow> base + count \<le> length inp \<Longrightarrow>
   generic_delta_loop E filt inp base count i m kp dp keys shift previous =
     (case foldl (generic_body E) (m, kp, dp, keys, shift)
             (deltas filt previous (take (Suc n) (drop (base + i) inp))) of
        (m', kp', dp', keys', shift') \<Rightarrow> (m', kp', dp', keys', shift', inp ! (base + count - 1)))"
proof (induction n arbitrary: i m kp dp keys shift previous)
  case 0
  then have c: "count = i + 1" by simp
  have lt: "base + i < length inp" using 0 by simp
  show ?case
    by (simp add: generic_delta_loop_unfold[where i=i] c take_drop_step[OF lt] split: prod.splits)
next
  case (Suc n)
  then have c: "i + 1 < count" and c': "count - (i + 1) = Suc n" by simp_all
  have lt: "base + i < length inp" using Suc.prems by simp
  obtain m' kp' dp' keys' shift' where
    b: "generic_body E (m, kp, dp, keys, shift) (filt (inp ! (base + i)) previous) = (m', kp', dp', keys', shift')"
    by (cases "generic_body E (m, kp, dp, keys, shift) (filt (inp ! (base + i)) previous)") auto
  have "generic_delta_loop E filt inp base count i m kp dp keys shift previous =
        generic_delta_loop E filt inp base count (i + 1) m' kp' dp' keys' shift' (inp ! (base + i))"
    using c by (simp add: generic_delta_loop_unfold[where i=i] b)
  also have "\<dots> = (case foldl (generic_body E) (m', kp', dp', keys', shift')
             (deltas filt (inp ! (base + i)) (take (Suc n) (drop (base + (i + 1)) inp))) of
        (m', kp', dp', keys', shift') \<Rightarrow> (m', kp', dp', keys', shift', inp ! (base + count - 1)))"
    using Suc.IH[OF c' Suc.prems(2)] .
  finally show ?case
    by (simp add: take_drop_step[OF lt, of "Suc n"] b)
qed

lemma generic_loop_unfold:
  "generic_loop E filt inp count i m kp dp keys shift =
     (case generic_body E (m, kp, dp, keys, shift) (filt (inp ! i)) of
        (m', kp', dp', keys', shift') \<Rightarrow>
          if i + 1 < count
          then generic_loop E filt inp count (i + 1) m' kp' dp' keys' shift'
          else (m', kp', dp', keys', shift'))"
  by (subst generic_loop.simps) (simp add: generic_body_def Let_def split: prod.splits)

lemma generic_loop_fold:
  "count - i = Suc n \<Longrightarrow> count \<le> length inp \<Longrightarrow>
   generic_loop E filt inp count i m kp dp keys shift =
     foldl (generic_body E) (m, kp, dp, keys, shift) (map filt (take (Suc n) (drop i inp)))"
proof (induction n arbitrary: i m kp dp keys shift)
  case 0
  then have c: "count = i + 1" by simp
  have lt: "i < length inp" using 0 by simp
  show ?case
    by (simp add: generic_loop_unfold[where i=i] c take_drop_step[OF lt] split: prod.splits)
next
  case (Suc n)
  then have c: "i + 1 < count" and c': "count - (i + 1) = Suc n" by simp_all
  have lt: "i < length inp" using Suc.prems by simp
  obtain m' kp' dp' keys' shift' where
    b: "generic_body E (m, kp, dp, keys, shift) (filt (inp ! i)) = (m', kp', dp', keys', shift')"
    by (cases "generic_body E (m, kp, dp, keys, shift) (filt (inp ! i))") auto
  have "generic_loop E filt inp count i m kp dp keys shift =
        generic_loop E filt inp count (i + 1) m' kp' dp' keys' shift'"
    using c by (simp add: generic_loop_unfold[where i=i] b)
  also have "\<dots> = foldl (generic_body E) (m', kp', dp', keys', shift')
             (map filt (take (Suc n) (drop (i + 1) inp)))"
    using Suc.IH[OF c' Suc.prems(2)] .
  finally show ?case
    by (simp add: take_drop_step[OF lt, of "Suc n"] b)
qed

section \<open>The scalar steps meet the format\<close>

lemma fmt_ok_svb1: "fmt_ok svb1_key_spec svb1_len_spec"
  by (simp add: fmt_ok_def svb1_key_spec_def svb1_len_spec_def)

lemma fmt_ok_svb0: "fmt_ok svb0_key_spec svb0_len_spec"
  by (simp add: fmt_ok_def svb0_key_spec_def svb0_len_spec_def)

lemma svb1_generic_mem:
  "fst (svb1_encode1_generic m dst v) =
     store_bytes m dst (if unat v < 65536 then take 2 (le_bytes32 v) else le_bytes32 v)"
proof (cases "unat v < 65536")
  case True
  then show ?thesis
    using fun_upd_store2[of m dst "ucast v" "ucast (drop_bit 8 v)"]
    by (simp add: svb1_encode1_generic_def Let_def shr16_ne0 le_bytes32_def)
next
  case False
  then show ?thesis
    using fun_upd_store4[of m dst "ucast v" "ucast (drop_bit 8 v)" "ucast (drop_bit 16 v)"
             "ucast (drop_bit 24 v)"]
    by (simp add: svb1_encode1_generic_def Let_def shr16_ne0 le_bytes32_def drop_bit_drop_bit)
qed

lemma svb1_key_small: "unat v < 65536 \<Longrightarrow> svb1_key_spec v \<le> 1"
  by (simp add: svb1_key_spec_def u32_le_alt)

lemma genc1_spec_svb1: "genc1_spec svb1_key_spec svb1_len_spec svb1_generic_step"
  unfolding genc1_spec_def
proof (intro allI)
  fix m dp v
  let ?bs = "if unat v < 65536 then take 2 (le_bytes32 v) else le_bytes32 v"
  have c: "snd (svb1_encode1_generic m dp v) = of_nat (svb1_key_spec v)" by (rule svb1_generic_code)
  have u: "unat (of_nat (svb1_key_spec v) :: byte) = svb1_key_spec v"
    using svb1_generic_code_unat[of m dp v] c by simp
  have 1: "svb1_generic_step m dp v = (store_bytes m dp ?bs, of_nat (svb1_key_spec v), svb1_len_spec v)"
    using svb1_generic_mem[of m dp v] c u
    by (cases "svb1_encode1_generic m dp v") (simp add: svb1_generic_step_def Let_def svb1_len_spec_def)
  have 2: "svb1_len_spec v \<le> length ?bs"
    using svb1_key_small[of v] svb1_key_spec_le3[of v]
    by (simp add: svb1_len_spec_def length_le_bytes32)
  have 3: "length ?bs \<le> 4" by (simp add: length_le_bytes32)
  have 4: "take (svb1_len_spec v) ?bs = payload svb1_len_spec v"
    using svb1_key_small[of v] by (simp add: payload_def svb1_len_spec_def min_def)
  show "\<exists>bs. svb1_generic_step m dp v = (store_bytes m dp bs, of_nat (svb1_key_spec v), svb1_len_spec v)
      \<and> svb1_len_spec v \<le> length bs \<and> length bs \<le> 4
      \<and> take (svb1_len_spec v) bs = payload svb1_len_spec v"
    using 1 2 3 4 by blast
qed

lemma svb0_generic_mem:
  "fst (svb0_encode1_generic m dst v) =
     store_bytes m dst (if unat v < 65536 then take 2 (le_bytes32 v) else le_bytes32 v)"
proof (cases "unat v < 65536")
  case True
  then show ?thesis
    using fun_upd_store2[of m dst "ucast v" "ucast (drop_bit 8 v)"]
    by (simp add: svb0_encode1_generic_def Let_def u32_le_alt le_bytes32_def)
next
  case False
  then show ?thesis
    using fun_upd_store4[of m dst "ucast v" "ucast (drop_bit 8 v)" "ucast (drop_bit 16 v)"
             "ucast (drop_bit 24 v)"]
    by (simp add: svb0_encode1_generic_def Let_def u32_le_alt le_bytes32_def drop_bit_drop_bit)
qed

lemma svb0_len_small: "unat v < 65536 \<Longrightarrow> svb0_len_spec v \<le> 2"
  by (simp add: svb0_len_spec_cases u32_le_alt)

lemma genc1_spec_svb0: "genc1_spec svb0_key_spec svb0_len_spec svb0_encode1_generic"
  unfolding genc1_spec_def
proof (intro allI)
  fix m dp v
  let ?bs = "if unat v < 65536 then take 2 (le_bytes32 v) else le_bytes32 v"
  have 1: "svb0_encode1_generic m dp v = (store_bytes m dp ?bs, of_nat (svb0_key_spec v), svb0_len_spec v)"
    using svb0_generic_mem[of m dp v] svb0_generic_eq[of m dp v] by (simp add: prod_eq_iff)
  have 2: "svb0_len_spec v \<le> length ?bs"
    using svb0_len_small[of v] svb0_len_spec_le4[of v] by (simp add: length_le_bytes32)
  have 3: "length ?bs \<le> 4" by (simp add: length_le_bytes32)
  have 4: "take (svb0_len_spec v) ?bs = payload svb0_len_spec v"
    using svb0_len_small[of v] by (simp add: payload_def min_def)
  show "\<exists>bs. svb0_encode1_generic m dp v = (store_bytes m dp bs, of_nat (svb0_key_spec v), svb0_len_spec v)
      \<and> svb0_len_spec v \<le> length bs \<and> length bs \<le> 4
      \<and> take (svb0_len_spec v) bs = payload svb0_len_spec v"
    using 1 2 3 4 by blast
qed

section \<open>Whole runs of the generic encoders\<close>

lemma enc_inv_encoded:
  assumes inv: "enc_inv out (svb_key_block_len N) (streamvbyte_compress_bound N) m kp e K D"
    and K: "length K = svb_key_block_len N"
  shows "encoded out N (K @ D) (m, e)"
  using inv K by (simp add: enc_inv_def encoded_def load_bytes_append)

lemma generic_inv_init:
  "generic_inv m0 kb bound (m0, 0, kb, 0, 0) ([], []) []"
  by (simp add: generic_inv_def enc_inv_init)

lemma bound_caps:
  "(N + 3) div 4 \<le> streamvbyte_compress_bound N"
  "svb_key_block_len N + 4 * N \<le> streamvbyte_compress_bound N"
  by (simp_all add: streamvbyte_compress_bound_def svb_key_block_len_def Let_def)

lemma generic_run:
  assumes spec: "genc1_spec key len E" and fk: "fmt_ok key len"
    and ne: "vs \<noteq> []"
    and f: "foldl (generic_body E) (out, 0, svb_key_block_len (length vs), 0, 0) vs = (m, kp, dp, keys, shift)"
  shows "encoded out (length vs) (svb_stream key len vs) (m(kp := keys), dp)"
proof -
  let ?N = "length vs"
  let ?kb = "svb_key_block_len ?N"
  let ?bound = "streamvbyte_compress_bound ?N"
  obtain pre g where pg: "foldl feed_key ([], []) (map key vs) = (pre, g)"
    by (cases "foldl feed_key ([], []) (map key vs)") auto
  have inv: "generic_inv out ?kb ?bound (m, kp, dp, keys, shift) (pre, g) (data_block len vs)"
    using generic_fold_inv[OF spec fk bound_caps(1) bound_caps(2),
        where N = ?N and ?m0.0 = out and s = "(out, 0, ?kb, 0, 0)" and pg = "([], [])" and D = "[]" and vs = vs]
      generic_inv_init[of out ?kb ?bound]
    by (simp add: f pg)
  have app: "pre @ g = map key vs" using feed_fold_app[OF pg] by simp
  have gne: "g \<noteq> []" using feed_fold_ne[of "map key vs" "([], [])"] ne by (simp add: pg)
  have "length pre + length g = ?N" using app by (metis length_append length_map)
  then have "length pre < ?N" using gne by (cases g) auto
  then have "length pre div 4 + 1 \<le> (?N + 3) div 4" by presburger
  then have cap: "length pre div 4 + 1 \<le> ?bound" using bound_caps(1)[of ?N] by simp
  have ei: "enc_inv out ?kb ?bound (m(kp := keys)) (kp + 1) dp (key_block (map key vs)) (data_block len vs)"
    using generic_flush[OF inv gne cap] by (simp add: app)
  have "length (key_block (map key vs)) = ?kb" by (simp add: length_key_block svb_key_block_len_def)
  from enc_inv_encoded[OF ei this] show ?thesis by (simp add: svb_stream_def)
qed

lemma length_deltas: "length (deltas f p xs) = length xs"
  by (induction xs arbitrary: p) simp_all

lemma deltas_Nil_iff: "deltas f p xs = [] \<longleftrightarrow> xs = []"
  by (cases xs) simp_all

lemma encoded_empty: "encoded out 0 (svb_stream key len []) (out, svb_key_block_len 0)"
  by (simp add: encoded_def svb_stream_def data_block_def svb_key_block_len_def load_bytes_0)

lemma generic_enc_encoded:
  assumes spec: "genc1_spec key len E" and fk: "fmt_ok key len"
  shows "encoded out (length inp) (svb_stream key len (map filt inp)) (generic_enc E filt inp out)"
proof (cases "inp = []")
  case True
  then show ?thesis using encoded_empty[of out key len] by (simp add: generic_enc_def)
next
  case False
  let ?N = "length inp"
  obtain n where n: "?N - 0 = Suc n" using False by (cases inp) auto
  then have tk: "take (Suc n) (drop 0 inp) = inp" by simp
  obtain m kp dp keys shift where
    f: "foldl (generic_body E) (out, 0, svb_key_block_len ?N, 0, 0) (map filt inp) = (m, kp, dp, keys, shift)"
    by (cases "foldl (generic_body E) (out, 0, svb_key_block_len ?N, 0, 0) (map filt inp)") auto
  have loop: "generic_loop E filt inp ?N 0 out 0 (svb_key_block_len ?N) 0 0 = (m, kp, dp, keys, shift)"
    using generic_loop_fold[OF n, of inp E filt out 0 "svb_key_block_len ?N" 0 0] f tk by simp
  have "encoded out (length (map filt inp)) (svb_stream key len (map filt inp)) (m(kp := keys), dp)"
    using spec fk _ f[folded length_map[of filt inp]] by (rule generic_run) (simp add: False)
  then show ?thesis using False by (simp add: generic_enc_def Let_def loop)
qed

lemma generic_delta_enc_encoded:
  assumes spec: "genc1_spec key len E" and fk: "fmt_ok key len"
  shows "encoded out (length inp) (svb_stream key len (deltas filt previous inp))
           (generic_delta_enc E filt inp out previous)"
proof (cases "inp = []")
  case True
  then show ?thesis using encoded_empty[of out key len] by (simp add: generic_delta_enc_def)
next
  case False
  let ?N = "length inp"
  let ?vs = "deltas filt previous inp"
  obtain n where n: "?N - 0 = Suc n" using False by (cases inp) auto
  then have tk: "take (Suc n) (drop (0 + 0) inp) = inp" by simp
  have lv: "length ?vs = ?N" by (rule length_deltas)
  obtain m kp dp keys shift where
    f: "foldl (generic_body E) (out, 0, svb_key_block_len ?N, 0, 0) ?vs = (m, kp, dp, keys, shift)"
    by (cases "foldl (generic_body E) (out, 0, svb_key_block_len ?N, 0, 0) ?vs") auto
  have loop: "generic_delta_loop E filt inp 0 ?N 0 out 0 (svb_key_block_len ?N) 0 0 previous
               = (m, kp, dp, keys, shift, inp ! (0 + ?N - 1))"
    using generic_delta_loop_fold[OF n, of 0 inp E filt out 0 "svb_key_block_len ?N" 0 0 previous] f tk
    by simp
  have "encoded out (length ?vs) (svb_stream key len ?vs) (m(kp := keys), dp)"
    using spec fk _ f[folded lv] by (rule generic_run) (simp add: False deltas_Nil_iff)
  then show ?thesis using False by (simp add: generic_delta_enc_def Let_def loop lv)
qed

section \<open>The x64 scalar tail\<close>

lemma enc1_spec_svb1: "enc1_spec svb1_key_spec svb1_len_spec svb1_encode1_step"
  unfolding enc1_spec_def
proof (intro allI)
  fix m keys dp v shift
  have u: "unat (of_nat (svb1_key_spec v) :: u32) = svb1_key_spec v"
    using svb1_x64_code_unat[of m dp v] svb1_x64_code[of m dp v] by simp
  show "svb1_encode1_step m keys dp v shift =
     (store_bytes m dp (le_bytes32 v), keys OR push_bit shift (of_nat (svb1_key_spec v)), dp + svb1_len_spec v)"
    using svb1_x64_code[of m dp v] svb1_x64_mem[of m dp v] u
    by (cases "svb1_encode1_x64 m dp v")
       (simp add: svb1_encode1_step_def Let_def svb1_len_spec_def svb_storeu_u32_def)
qed

lemma ucast_or_push_64_32:
  "(ucast ((ucast (keys :: u32) :: u64) OR push_bit shift (of_nat k)) :: u32) = keys OR push_bit shift (of_nat k)"
  by (rule bit_word_eqI) (auto simp add: bit_simps)

lemma enc1_spec_svb0: "enc1_spec svb0_key_spec svb0_len_spec SVB0_ENCODE1"
  unfolding enc1_spec_def
  by (simp add: SVB0_ENCODE1_eq svb_storeu_u32_def ucast_or_push_64_32)

lemma x64_tail_fold_inv:
  assumes spec: "enc1_spec key len E" and fk: "fmt_ok key len"
  shows "enc_inv m0 kb bound m kp dp K D \<Longrightarrow> keys = of_nat (key_byte g) \<Longrightarrow> \<forall>k\<in>set g. k \<le> 3
     \<Longrightarrow> dp + 4 * length vs \<le> bound
     \<Longrightarrow> \<exists>m' dp'. x64_tail_fold E (length g) (m, keys, dp) vs = (m', of_nat (key_byte (g @ map key vs)), dp')
            \<and> enc_inv m0 kb bound m' kp dp' K (D @ data_block len vs)"
proof (induction vs arbitrary: m keys dp g D)
  case Nil
  then show ?case by (simp add: data_block_def)
next
  case (Cons v vs)
  have E: "E m keys dp v (length g * 2) =
     (store_bytes m dp (le_bytes32 v), keys OR push_bit (length g * 2) (of_nat (key v)), dp + len v)"
    using spec by (simp add: enc1_spec_def)
  have kv: "key v \<le> 3" and lv: "len v \<le> 4" using fk by (simp_all add: fmt_ok_def)
  have k': "keys OR push_bit (length g * 2) (of_nat (key v)) = of_nat (key_byte (g @ [key v]))"
    unfolding Cons.prems(2) using key_byte_or[OF Cons.prems(3), of "key v", where ?'a=32]
    by (simp add: mult.commute)
  have i1: "enc_inv m0 kb bound (store_bytes m dp (le_bytes32 v)) kp (dp + len v) K (D @ payload len v)"
    using enc_inv_data[OF Cons.prems(1), of "len v" "le_bytes32 v"] lv Cons.prems(4)
    by (simp add: length_le_bytes32 payload_def)
  have g': "\<forall>k\<in>set (g @ [key v]). k \<le> 3" using Cons.prems(3) kv by simp
  have cap: "dp + len v + 4 * length vs \<le> bound" using Cons.prems(4) lv by simp
  from Cons.IH[OF i1 k' g' cap]
  show ?case by (simp add: E data_block_def)
qed

lemma key_byte_split4:
  "key_byte ks = key_byte (take 4 ks) + 256 * key_byte (drop 4 ks)"
proof (cases "length ks \<le> 4")
  case True then show ?thesis by simp
next
  case False
  then have "length (take 4 ks) = 4" by simp
  then show ?thesis using key_byte_append[of "take 4 ks" "drop 4 ks"] by simp
qed

lemma key_byte_take4_less: "\<forall>k\<in>set ks. k \<le> 3 \<Longrightarrow> key_byte (take 4 ks) < 256"
proof -
  assume a: "\<forall>k\<in>set ks. k \<le> 3"
  then have "\<forall>k\<in>set (take 4 ks). k \<le> 3" by (meson in_set_takeD)
  from key_byte_less[OF this] have "key_byte (take 4 ks) < 4 ^ length (take 4 ks)" .
  also have "\<dots> \<le> 4 ^ 4" by (rule power_increasing) simp_all
  finally show ?thesis by simp
qed

lemma ucast_of_nat_32_8: "(ucast (of_nat n :: u32) :: byte) = of_nat n"
  by (simp add: unsigned_of_nat word_of_nat_eq_iff take_bit_of_nat)

lemma drop8_of_nat: "n < 4294967296 \<Longrightarrow> drop_bit 8 (of_nat n :: u32) = of_nat (n div 256)"
proof -
  assume n: "n < 4294967296"
  have "unat (drop_bit 8 (of_nat n :: u32)) = unat (of_nat (n div 256) :: u32)"
    using n by (simp add: drop_bit_eq_div unat_div_distrib unat_of_nat)
  then show ?thesis by (simp only: word_unat_eq_iff)
qed

lemma of_nat_split_byte: "(of_nat (a + 256 * b) :: byte) = of_nat a"
  by (simp only: word_of_nat_eq_iff) (simp add: take_bit_eq_mod)

lemma key_block_two:
  assumes "4 < length ks" and "length ks \<le> 8"
  shows "key_block ks = [of_nat (key_byte (take 4 ks)), of_nat (key_byte (drop 4 ks))]"
proof -
  have l4: "length (take 4 ks) mod 4 = 0" using assms by simp
  have "key_block ks = key_block (take 4 ks @ drop 4 ks)" by simp
  also have "\<dots> = key_block (take 4 ks) @ key_block (drop 4 ks)"
    using l4 by (rule key_block_append)
  also have "key_block (take 4 ks) = [of_nat (key_byte (take 4 ks))]"
    using assms by (intro key_block_group) auto
  also have "key_block (drop 4 ks) = [of_nat (key_byte (drop 4 ks))]"
    using assms by (intro key_block_group) auto
  finally show ?thesis by simp
qed

lemma x64_tail_keys_store:
  assumes k3: "\<forall>k\<in>set ks. k \<le> 3" and l1: "ks \<noteq> []" and l7: "length ks \<le> 7"
  shows "x64_store_tail_keys m kp (of_nat (key_byte ks)) (length ks) = store_bytes m kp (key_block ks)"
proof (cases "length ks \<le> 4")
  case True
  have "key_block ks = [of_nat (key_byte ks)]" using l1 True by (rule key_block_group)
  then show ?thesis
    using True by (simp add: x64_store_tail_keys_def Let_def ucast_of_nat_32_8 fun_upd_store1)
next
  case False
  then have gt: "4 < length ks" by simp
  have kb: "key_block ks = [of_nat (key_byte (take 4 ks)), of_nat (key_byte (drop 4 ks))]"
    using gt l7 by (intro key_block_two) simp_all
  let ?a = "key_byte (take 4 ks)" and ?b = "key_byte (drop 4 ks)"
  have N: "key_byte ks = ?a + 256 * ?b" by (rule key_byte_split4)
  have a: "?a < 256" using k3 by (rule key_byte_take4_less)
  have "\<forall>k\<in>set (drop 4 ks). k \<le> 3" using k3 by (meson in_set_dropD)
  from key_byte_less[OF this] have "?b < 4 ^ length (drop 4 ks)" .
  also have "\<dots> \<le> 4 ^ 3" using l7 by (intro power_increasing) simp_all
  finally have b: "?b < 64" by simp
  have lt: "key_byte ks < 4294967296" using N a b by simp
  have dv: "key_byte ks div 256 = ?b" using N a by simp
  have b0: "(ucast (of_nat (key_byte ks) :: u32) :: byte) = of_nat ?a"
    unfolding ucast_of_nat_32_8 N by (rule of_nat_split_byte)
  have b1: "(ucast (drop_bit 8 (of_nat (key_byte ks) :: u32)) :: byte) = of_nat ?b"
    unfolding drop8_of_nat[OF lt] dv by (rule ucast_of_nat_32_8)
  show ?thesis
    using gt fun_upd_store2[of m kp "of_nat ?a" "of_nat ?b"]
    by (simp add: x64_store_tail_keys_def Let_def b0 b1 kb del: fun_upd_apply)
qed

lemma x64_delta_tail_loop_unfold:
  "x64_delta_tail_loop E filt inp base count i m keys dp previous =
     (case E m keys dp (filt (inp ! (base + i)) previous) (i * 2) of
        (m', keys', dp') \<Rightarrow>
          if i + 1 < count
          then x64_delta_tail_loop E filt inp base count (i + 1) m' keys' dp' (inp ! (base + i))
          else (m', keys', dp', inp ! (base + i)))"
  by (subst x64_delta_tail_loop.simps) (simp add: Let_def split: prod.splits)

lemma x64_delta_tail_loop_fold:
  "count - i = Suc n \<Longrightarrow> base + count \<le> length inp \<Longrightarrow>
   x64_delta_tail_loop E filt inp base count i m keys dp previous =
     (case x64_tail_fold E i (m, keys, dp)
             (deltas filt previous (take (Suc n) (drop (base + i) inp))) of
        (m', keys', dp') \<Rightarrow> (m', keys', dp', inp ! (base + count - 1)))"
proof (induction n arbitrary: i m keys dp previous)
  case 0
  then have c: "count = i + 1" by simp
  have lt: "base + i < length inp" using 0 by simp
  show ?case
    by (simp add: x64_delta_tail_loop_unfold[where i=i] c take_drop_step[OF lt] split: prod.splits)
next
  case (Suc n)
  then have c: "i + 1 < count" and c': "count - (i + 1) = Suc n" by simp_all
  have lt: "base + i < length inp" using Suc.prems by simp
  obtain m' keys' dp' where
    b: "E m keys dp (filt (inp ! (base + i)) previous) (i * 2) = (m', keys', dp')"
    by (cases "E m keys dp (filt (inp ! (base + i)) previous) (i * 2)") auto
  have "x64_delta_tail_loop E filt inp base count i m keys dp previous =
        x64_delta_tail_loop E filt inp base count (i + 1) m' keys' dp' (inp ! (base + i))"
    using c by (simp add: x64_delta_tail_loop_unfold[where i=i] b)
  also have "\<dots> = (case x64_tail_fold E (i + 1) (m', keys', dp')
             (deltas filt (inp ! (base + i)) (take (Suc n) (drop (base + (i + 1)) inp))) of
        (m', keys', dp') \<Rightarrow> (m', keys', dp', inp ! (base + count - 1)))"
    using Suc.IH[OF c' Suc.prems(2)] .
  finally show ?case
    by (simp add: take_drop_step[OF lt, of "Suc n"] b)
qed

lemma x64_tail_loop_unfold:
  "x64_tail_loop E filt inp base count i m keys dp =
     (case E m keys dp (filt (inp ! (base + i))) (i * 2) of
        (m', keys', dp') \<Rightarrow>
          if i + 1 < count
          then x64_tail_loop E filt inp base count (i + 1) m' keys' dp'
          else (m', keys', dp'))"
  by (subst x64_tail_loop.simps) (simp add: Let_def split: prod.splits)

lemma x64_tail_loop_fold:
  "count - i = Suc n \<Longrightarrow> base + count \<le> length inp \<Longrightarrow>
   x64_tail_loop E filt inp base count i m keys dp =
     x64_tail_fold E i (m, keys, dp) (map filt (take (Suc n) (drop (base + i) inp)))"
proof (induction n arbitrary: i m keys dp)
  case 0
  then have c: "count = i + 1" by simp
  have lt: "base + i < length inp" using 0 by simp
  show ?case
    by (simp add: x64_tail_loop_unfold[where i=i] c take_drop_step[OF lt] split: prod.splits)
next
  case (Suc n)
  then have c: "i + 1 < count" and c': "count - (i + 1) = Suc n" by simp_all
  have lt: "base + i < length inp" using Suc.prems by simp
  obtain m' keys' dp' where
    b: "E m keys dp (filt (inp ! (base + i))) (i * 2) = (m', keys', dp')"
    by (cases "E m keys dp (filt (inp ! (base + i))) (i * 2)") auto
  have "x64_tail_loop E filt inp base count i m keys dp =
        x64_tail_loop E filt inp base count (i + 1) m' keys' dp'"
    using c by (simp add: x64_tail_loop_unfold[where i=i] b)
  also have "\<dots> = x64_tail_fold E (i + 1) (m', keys', dp')
             (map filt (take (Suc n) (drop (base + (i + 1)) inp)))"
    using Suc.IH[OF c' Suc.prems(2)] .
  finally show ?case
    by (simp add: take_drop_step[OF lt, of "Suc n"] b)
qed

lemma x64_tail_run:
  assumes spec: "enc1_spec key len E" and fk: "fmt_ok key len"
    and inv: "enc_inv m0 kb bound m kp dp (key_block pre) D"
    and pre4: "length pre mod 4 = 0"
    and ne: "vs \<noteq> []" and l7: "length vs \<le> 7"
    and capd: "dp + 4 * length vs \<le> bound"
    and capk: "kp + (length vs + 3) div 4 \<le> bound"
  shows "\<exists>m' keys dp'. x64_tail_fold E 0 (m, 0, dp) vs = (m', keys, dp')
     \<and> enc_inv m0 kb bound (x64_store_tail_keys m' kp keys (length vs))
           (kp + (length vs + 3) div 4) dp' (key_block (pre @ map key vs)) (D @ data_block len vs)"
proof -
  have k3: "\<forall>k\<in>set (map key vs). k \<le> 3" using fk by (simp add: fmt_ok_def)
  obtain m' dp' where
    f: "x64_tail_fold E 0 (m, 0, dp) vs = (m', of_nat (key_byte (map key vs)), dp')"
    and i1: "enc_inv m0 kb bound m' kp dp' (key_block pre) (D @ data_block len vs)"
    using x64_tail_fold_inv[OF spec fk inv, of 0 "[]" vs] capd by auto
  have st: "x64_store_tail_keys m' kp (of_nat (key_byte (map key vs))) (length (map key vs))
             = store_bytes m' kp (key_block (map key vs))"
    using k3 by (rule x64_tail_keys_store) (use ne l7 in simp_all)
  have "enc_inv m0 kb bound (store_bytes m' kp (key_block (map key vs)))
          (kp + length (key_block (map key vs))) dp'
          (key_block pre @ key_block (map key vs)) (D @ data_block len vs)"
    using i1 capk by (intro enc_inv_key) (simp_all add: length_key_block)
  then have "enc_inv m0 kb bound (x64_store_tail_keys m' kp (of_nat (key_byte (map key vs))) (length vs))
          (kp + (length vs + 3) div 4) dp' (key_block (pre @ map key vs)) (D @ data_block len vs)"
    using st by (simp add: length_key_block key_block_append[OF pre4])
  then show ?thesis using f by blast
qed

section \<open>Bytes and lanes\<close>

lemma replicate16: "replicate 16 x = [x, x, x, x, x, x, x, x, x, x, x, x, x, x, x, x]"
  by (simp add: numeral_eq_Suc)

lemma replicate8: "replicate 8 x = [x, x, x, x, x, x, x, x]"
  by (simp add: numeral_eq_Suc)

lemma u16_of_le: "u16_of (ucast w) (ucast (drop_bit 8 w)) = w"
  unfolding u16_of_def by (rule bit_word_eqI) (auto simp add: bit_simps)

lemma u32_of_le:
  "u32_of (ucast v) (ucast (drop_bit 8 v)) (ucast (drop_bit 16 v)) (ucast (drop_bit 24 v)) = v"
  unfolding u32_of_def
proof (rule bit_word_eqI)
  fix n assume n: "n < LENGTH(32)"
  consider "n < 8" | "8 \<le> n \<and> n < 16" | "16 \<le> n \<and> n < 24" | "24 \<le> n" by linarith
  then show "bit (ucast (ucast v :: byte) OR push_bit 8 (ucast (ucast (drop_bit 8 v) :: byte))
                OR push_bit 16 (ucast (ucast (drop_bit 16 v) :: byte))
                OR push_bit 24 (ucast (ucast (drop_bit 24 v) :: byte)) :: u32) n = bit v n"
    using n by cases (auto simp add: bit_simps)
qed

lemma epi32_of_epi32_4: "epi32 (of_epi32 [a, b, c, d]) = [a, b, c, d]"
  by (simp add: of_epi32_def le_bytes32_def u32_of_le)

lemma epi16_of_epi16_8:
  "epi16 (of_epi16 [a, b, c, d, e, f, g, h]) = [a, b, c, d, e, f, g, h]"
  by (simp add: of_epi16_def le_bytes16_def u16_of_le)

lemma min1_byte: "min 1 (b :: byte) = (if b = 0 then 0 else 1)"
proof (cases "b = 0")
  case True then show ?thesis by simp
next
  case False
  then have "unat b \<noteq> 0" by (simp add: unat_0_iff)
  then have "1 \<le> b" by (simp add: word_le_nat_alt)
  then show ?thesis using False by (simp add: min_def)
qed
lemma byte_unat:
  "unat (ucast (v::u32) :: byte) = unat v mod 256"
  "unat (ucast (drop_bit 8 (v::u32)) :: byte) = unat v div 256 mod 256"
  "unat (ucast (drop_bit 16 (v::u32)) :: byte) = unat v div 65536 mod 256"
  "unat (ucast (drop_bit 24 (v::u32)) :: byte) = unat v div 16777216 mod 256"
  by (simp_all add: unsigned_ucast_eq drop_bit_eq_div take_bit_eq_mod unat_div_distrib)

lemma byte3_zero: "(ucast (drop_bit 24 (v::u32)) :: byte) = 0 \<longleftrightarrow> unat v < 16777216"
proof -
  have lt: "unat v < 4294967296" using unsigned_less[of v, where ?'a=nat] by simp
  have "(ucast (drop_bit 24 v) :: byte) = 0 \<longleftrightarrow> unat v div 16777216 mod 256 = 0"
    by (simp only: byte_unat(4)[symmetric] unat_0_iff)
  also have "\<dots> \<longleftrightarrow> unat v < 16777216"
    using lt by (simp add: Euclidean_Rings.div_eq_0_iff div_less_iff_less_mult)
  finally show ?thesis .
qed

lemma byte2_zero:
  "unat v < 16777216 \<Longrightarrow> (ucast (drop_bit 16 (v::u32)) :: byte) = 0 \<longleftrightarrow> unat v < 65536"
proof -
  assume lt: "unat v < 16777216"
  have "(ucast (drop_bit 16 v) :: byte) = 0 \<longleftrightarrow> unat v div 65536 mod 256 = 0"
    by (simp only: byte_unat(3)[symmetric] unat_0_iff)
  also have "\<dots> \<longleftrightarrow> unat v < 65536"
    using lt by (simp add: Euclidean_Rings.div_eq_0_iff div_less_iff_less_mult)
  finally show ?thesis .
qed

lemma byte1_zero:
  "unat v < 65536 \<Longrightarrow> (ucast (drop_bit 8 (v::u32)) :: byte) = 0 \<longleftrightarrow> unat v < 256"
proof -
  assume lt: "unat v < 65536"
  have "(ucast (drop_bit 8 v) :: byte) = 0 \<longleftrightarrow> unat v div 256 mod 256 = 0"
    by (simp only: byte_unat(2)[symmetric] unat_0_iff)
  also have "\<dots> \<longleftrightarrow> unat v < 256"
    using lt by (simp add: Euclidean_Rings.div_eq_0_iff div_less_iff_less_mult)
  finally show ?thesis .
qed

lemma byte0_zero:
  "unat v < 256 \<Longrightarrow> (ucast (v::u32) :: byte) = 0 \<longleftrightarrow> unat v = 0"
proof -
  assume lt: "unat v < 256"
  have "(ucast v :: byte) = 0 \<longleftrightarrow> unat v mod 256 = 0"
    by (simp only: byte_unat(1)[symmetric] unat_0_iff)
  also have "\<dots> \<longleftrightarrow> unat v = 0" using lt by simp
  finally show ?thesis .
qed

lemma svb1_key_bytes:
  "svb1_key_spec v =
     (if (ucast (drop_bit 24 v) :: byte) \<noteq> 0 then 3
      else if (ucast (drop_bit 16 v) :: byte) \<noteq> 0 then 2
      else if (ucast (drop_bit 8 v) :: byte) \<noteq> 0 then 1 else 0)"
proof -
  consider "unat v < 256" | "256 \<le> unat v \<and> unat v < 65536"
    | "65536 \<le> unat v \<and> unat v < 16777216" | "16777216 \<le> unat v" by linarith
  then show ?thesis
  proof cases
    case 1 then show ?thesis by (simp add: svb1_key_spec_def u32_le_alt byte3_zero byte2_zero byte1_zero)
  next
    case 2 then show ?thesis by (simp add: svb1_key_spec_def u32_le_alt byte3_zero byte2_zero byte1_zero)
  next
    case 3 then show ?thesis by (simp add: svb1_key_spec_def u32_le_alt byte3_zero byte2_zero byte1_zero)
  next
    case 4 then show ?thesis by (simp add: svb1_key_spec_def u32_le_alt byte3_zero)
  qed
qed

lemma svb0_key_bytes:
  "svb0_key_spec v =
     (if (ucast (drop_bit 24 v) :: byte) \<noteq> 0 \<or> (ucast (drop_bit 16 v) :: byte) \<noteq> 0 then 3
      else if (ucast (drop_bit 8 v) :: byte) \<noteq> 0 then 2
      else if (ucast v :: byte) \<noteq> 0 then 1 else 0)"
proof -
  consider "unat v < 256" | "256 \<le> unat v \<and> unat v < 65536"
    | "65536 \<le> unat v \<and> unat v < 16777216" | "16777216 \<le> unat v" by linarith
  then show ?thesis
  proof cases
    case 1 then show ?thesis
      by (simp add: svb0_key_spec_def u32_le_alt u32_eq_0_alt byte3_zero byte2_zero byte1_zero byte0_zero)
  next
    case 2 then show ?thesis
      by (simp add: svb0_key_spec_def u32_le_alt u32_eq_0_alt byte3_zero byte2_zero byte1_zero)
  next
    case 3 then show ?thesis
      by (simp add: svb0_key_spec_def u32_le_alt u32_eq_0_alt byte3_zero byte2_zero)
  next
    case 4 then show ?thesis
      by (simp add: svb0_key_spec_def u32_le_alt u32_eq_0_alt byte3_zero)
  qed
qed

lemma epi16_of_epi16: "epi16 (of_epi16 ws) = ws"
  by (induction ws) (simp_all add: of_epi16_def le_bytes16_def u16_of_le)

lemma epi32_of_epi32: "epi32 (of_epi32 ws) = ws"
  by (induction ws) (simp_all add: of_epi32_def le_bytes32_def u32_of_le)

lemma length_of_epi32: "length (of_epi32 ws) = 4 * length ws"
  by (induction ws) (simp_all add: of_epi32_def le_bytes32_def)

lemma length_of_epi16: "length (of_epi16 ws) = 2 * length ws"
  by (induction ws) (simp_all add: of_epi16_def le_bytes16_def)

lemma movemask_of_epi16: "movemask (of_epi16 ws) = key_byte (map lane2 ws)"
proof (induction ws)
  case Nil then show ?case by (simp add: of_epi16_def)
next
  case (Cons w ws)
  have 1: "bit (ucast w :: byte) 7 = bit w 7" by (simp add: bit_simps)
  have 2: "bit (ucast (drop_bit 8 w) :: byte) 7 = bit w 15" by (simp add: bit_simps)
  show ?case using Cons by (simp add: of_epi16_def le_bytes16_def lane2_def 1 2)
qed

section \<open>Key generation of the 8-element macros\<close>

lemma svb1_keys_vec:
  "mm_adds_epu16
     (mm_min_epi16
        (mm_packus_epi16 (mm_min_epu8 (mm_set1_epi8 1) (of_epi32 [a0, a1, a2, a3]))
                         (mm_min_epu8 (mm_set1_epi8 1) (of_epi32 [b0, b1, b2, b3])))
        (mm_set1_epi8 1))
     (mm_set1_epi16 0x7F00)
   = of_epi16 (map svb1_lane [a0, a1, a2, a3, b0, b1, b2, b3])"
  by (simp add: mm_adds_epu16_def mm_min_epi16_def mm_packus_epi16_def mm_min_epu8_def
        mm_set1_epi8_def mm_set1_epi16_def replicate16 replicate8 epi16_of_epi16
        svb1_lane_def of_epi32_def le_bytes32_def)

lemma svb0_keys_vec:
  "mm_slli_epi16
     (mm_min_epi16
        (mm_packus_epi32 (mm_min_epu8 (mm_set1_epi8 1) (of_epi32 [a0, a1, a2, a3]))
                         (mm_min_epu8 (mm_set1_epi8 1) (of_epi32 [b0, b1, b2, b3])))
        (mm_slli_epi16 (mm_set1_epi8 1) 8))
     7
   = of_epi16 (map svb0_lane [a0, a1, a2, a3, b0, b1, b2, b3])"
  by (simp add: mm_slli_epi16_def mm_min_epi16_def mm_packus_epi32_def mm_min_epu8_def
        mm_set1_epi8_def replicate16 replicate8 epi16_of_epi16
        svb0_lane_def of_epi32_def le_bytes32_def)

lemma lane2_svb1: "lane2 (svb1_lane v) = svb1_key_spec v"
  unfolding svb1_lane_def svb1_key_bytes min1_byte
  by (simp add: u16_of_def packus16_def min_s16_def adds_u16_def lane2_def)

lemma lane2_svb0: "lane2 (svb0_lane v) = svb0_key_spec v"
  unfolding svb0_lane_def svb0_key_bytes min1_byte
  by (simp add: u16_of_def u32_of_def packus32_def min_s16_def lane2_def)

section \<open>The tables of the 8-element macros\<close>

lemma svb1_enc_table_gen: "svb1_enc_table = concat (map (gen_row svb1_width) [0..<64])"
  by code_simp

lemma svb0_enc_table_gen: "svb0_enc_table = concat (map (gen_row svb0_width) [0..<64])"
  by code_simp

lemma svb1_len_table_gen: "map unat svb1_len_table = map (gen_len svb1_width) [0..<256]"
  by code_simp

lemma svb0_len_table_gen: "map unat svb0_len_table = map (gen_len svb0_width) [0..<256]"
  by code_simp

lemma svb1_width_le: "k \<le> 3 \<Longrightarrow> svb1_width k \<le> 4"
  by (simp add: svb1_width_def)

lemma svb0_width_le: "k \<le> 3 \<Longrightarrow> svb0_width k \<le> 4"
proof -
  assume "k \<le> 3"
  then consider "k = 0" | "k = 1" | "k = 2" | "k = 3" by linarith
  then show ?thesis by cases (simp_all add: svb0_width_def)
qed

lemma take_drop_concat:
  "\<forall>x\<in>set xs. length x = k \<Longrightarrow> i < length xs \<Longrightarrow> take k (drop (k * i) (concat xs)) = xs ! i"
proof (induction xs arbitrary: i)
  case Nil then show ?case by simp
next
  case (Cons x xs)
  show ?case
  proof (cases i)
    case 0 then show ?thesis using Cons.prems by simp
  next
    case (Suc j)
    have "drop (k * Suc j) (x @ concat xs) = drop (k * j) (concat xs)"
      using Cons.prems(1) by simp
    then show ?thesis using Cons.IH[of j] Cons.prems Suc by simp
  qed
qed

lemma length_gen_row:
  assumes "\<forall>k\<le>3. w k \<le> 4"
  shows "length (gen_row w r) = 16"
proof -
  have "w (r mod 4) \<le> 4" "w (r div 4 mod 4) \<le> 4" "w (r div 16 mod 4) \<le> 4"
    using assms by simp_all
  then show ?thesis by (simp add: gen_row_def Let_def)
qed

lemma load_gen_row:
  assumes w: "\<forall>k\<le>3. w k \<le> 4" and r: "r < 64"
  shows "mm_loadu_si128_u8 (concat (map (gen_row w) [0..<64])) (16 * r) = gen_row w r"
proof -
  have "take 16 (drop (16 * r) (concat (map (gen_row w) [0..<64]))) = map (gen_row w) [0..<64] ! r"
    using r by (intro take_drop_concat) (simp_all add: length_gen_row[OF w])
  then show ?thesis using r by (simp add: mm_loadu_si128_u8_def)
qed

lemma len_table_nth:
  assumes "map unat tab = map (gen_len w) [0..<256]" and "k < 256"
  shows "unat (tab ! k) = gen_len w k"
proof -
  have l: "length tab = 256" using assms(1) by (metis length_map length_upt diff_zero)
  have "map unat tab ! k = map (gen_len w) [0..<256] ! k" using assms(1) by simp
  then show ?thesis using assms(2) l by simp
qed

section \<open>The byte shuffle of the 8-element macros\<close>

lemma shuffle_index_closed:
  "\<forall>j\<in>set [0..<16]. \<not> bit (of_nat j :: byte) 7 \<and> unat ((of_nat j :: byte) AND 0x0F) = j"
  by code_simp

lemma shuffle_index:
  assumes "j < 16"
  shows "(if bit (of_nat j :: byte) 7 then 0 else src ! unat ((of_nat j :: byte) AND 0x0F)) = src ! j"
proof -
  have "j \<in> set [0..<16]" using assms by simp
  with shuffle_index_closed
  have "\<not> bit (of_nat j :: byte) 7 \<and> unat ((of_nat j :: byte) AND 0x0F) = j" by blast
  then show ?thesis by simp
qed

lemma shuffle_map:
  assumes "\<forall>j\<in>set idx. j < 16"
  shows "mm_shuffle_epi8 src (map of_nat idx @ pad) = map (nth src) idx @ mm_shuffle_epi8 src pad"
  using assms by (induction idx) (simp_all add: mm_shuffle_epi8_def shuffle_index)

lemma length_shuffle: "length (mm_shuffle_epi8 src row) = length row"
  by (simp add: mm_shuffle_epi8_def)

lemma map_nth_upt_take_drop:
  "p + n \<le> length xs \<Longrightarrow> map (nth xs) [p..<p + n] = take n (drop p xs)"
  by (auto simp add: list_eq_iff_nth_eq)

lemma shuffle_gen_row:
  assumes w: "\<forall>k\<le>3. w k \<le> 4" and l: "length src = 16"
  shows "\<exists>pad. mm_shuffle_epi8 src (gen_row w r) =
     take (w (r mod 4)) src @ take (w (r div 4 mod 4)) (drop 4 src)
       @ take (w (r div 16 mod 4)) (drop 8 src) @ drop 12 src @ pad"
proof -
  let ?n0 = "w (r mod 4)" and ?n1 = "w (r div 4 mod 4)" and ?n2 = "w (r div 16 mod 4)"
  let ?idx = "[0..<?n0] @ [4..<4 + ?n1] @ [8..<8 + ?n2] @ [12..<16]"
  have n: "?n0 \<le> 4" "?n1 \<le> 4" "?n2 \<le> 4" using w by simp_all
  have lt: "\<forall>j\<in>set ?idx. j < 16" using n by auto
  have 0: "map (nth src) [0..<?n0] = take ?n0 src"
    using n l map_nth_upt_take_drop[of 0 ?n0 src] by simp
  have 1: "map (nth src) [4..<4 + ?n1] = take ?n1 (drop 4 src)"
    using n l by (intro map_nth_upt_take_drop) simp
  have 2: "map (nth src) [8..<8 + ?n2] = take ?n2 (drop 8 src)"
    using n l by (intro map_nth_upt_take_drop) simp
  have 3: "map (nth src) [12..<12 + 4] = take 4 (drop 12 src)"
    using l by (intro map_nth_upt_take_drop) simp
  have d3: "map (nth src) [12..<16] = drop 12 src" using 3 l by simp
  let ?pad = "mm_shuffle_epi8 src (replicate (16 - length ?idx) 0)"
  have "mm_shuffle_epi8 src (gen_row w r) = map (nth src) ?idx @ ?pad"
    unfolding gen_row_def Let_def using lt by (rule shuffle_map)
  also have "map (nth src) ?idx = take ?n0 src @ take ?n1 (drop 4 src) @ take ?n2 (drop 8 src) @ drop 12 src"
    by (simp only: map_append 0 1 2 d3)
  finally have "mm_shuffle_epi8 src (gen_row w r) =
     take ?n0 src @ take ?n1 (drop 4 src) @ take ?n2 (drop 8 src) @ drop 12 src @ ?pad"
    by (simp only: append_assoc)
  then show ?thesis by (rule exI)
qed

lemma digit_step: "(a::nat) \<le> 3 \<Longrightarrow> (a + 4 * b) mod 4 = a \<and> (a + 4 * b) div 4 = b"
  by simp

lemma key_digits:
  fixes k0 k1 k2 k3 :: nat
  assumes k: "k0 \<le> 3" "k1 \<le> 3" "k2 \<le> 3" "k3 \<le> 3"
  defines "A \<equiv> k0 + 4 * (k1 + 4 * (k2 + 4 * k3))"
  shows "A mod 64 mod 4 = k0" "A mod 64 div 4 mod 4 = k1" "A mod 64 div 16 mod 4 = k2"
    "A mod 4 = k0" "A div 4 mod 4 = k1" "A div 16 mod 4 = k2" "A div 64 = k3" "A < 256" "A mod 64 < 64"
proof -
  have d4: "A div 4 = k1 + 4 * (k2 + 4 * k3)" and m4: "A mod 4 = k0"
    unfolding A_def using digit_step[OF k(1)] by blast+
  have "A div 16 = A div 4 div 4" by (simp add: div_mult2_eq)
  also have "\<dots> = (k1 + 4 * (k2 + 4 * k3)) div 4" by (simp only: d4)
  also have "\<dots> = k2 + 4 * k3" using digit_step[OF k(2)] by blast
  finally have d16: "A div 16 = k2 + 4 * k3" .
  have "A div 64 = A div 16 div 4" by (simp add: div_mult2_eq)
  also have "\<dots> = (k2 + 4 * k3) div 4" by (simp only: d16)
  also have "\<dots> = k3" using digit_step[OF k(3)] by blast
  finally have d64: "A div 64 = k3" .
  have B: "k0 + 4 * (k1 + 4 * k2) < 64" using k by simp
  have "A = (k0 + 4 * (k1 + 4 * k2)) + 64 * k3" unfolding A_def by simp
  then have "A mod 64 = (k0 + 4 * (k1 + 4 * k2)) mod 64" by (simp only: mod_mult_self2)
  then have m64: "A mod 64 = k0 + 4 * (k1 + 4 * k2)" using B by (simp only: mod_less)
  show "A mod 4 = k0" by (rule m4)
  show "A div 4 mod 4 = k1" unfolding d4 using digit_step[OF k(2)] by blast
  show "A div 16 mod 4 = k2" unfolding d16 using digit_step[OF k(3)] by blast
  show "A div 64 = k3" by (rule d64)
  show "A < 256" unfolding A_def using k by simp
  show "A mod 64 < 64" by simp
  show "A mod 64 mod 4 = k0" unfolding m64 using digit_step[OF k(1)] by blast
  have e4: "A mod 64 div 4 = k1 + 4 * k2" unfolding m64 using digit_step[OF k(1)] by blast
  show "A mod 64 div 4 mod 4 = k1" unfolding e4 using digit_step[OF k(2)] by blast
  have "A mod 64 div 16 = A mod 64 div 4 div 4" by (simp add: div_mult2_eq)
  also have "\<dots> = (k1 + 4 * k2) div 4" by (simp only: e4)
  also have "\<dots> = k2" using digit_step[OF k(2)] by blast
  finally show "A mod 64 div 16 mod 4 = k2" using k(3) by simp
qed

lemma half_group:
  fixes a0 a1 a2 a3 :: u32
  assumes w: "\<forall>k\<le>3. w k \<le> 4" and kl: "\<forall>v. len v = w (key v)" and fk: "\<forall>v. key v \<le> 3"
  defines "A \<equiv> key_byte (map key [a0, a1, a2, a3])"
  defines "S \<equiv> mm_shuffle_epi8 (of_epi32 [a0, a1, a2, a3]) (gen_row w (A mod 64))"
  shows "length S = 16" "gen_len w A = length (data_block len [a0, a1, a2, a3])"
    "take (gen_len w A) S = data_block len [a0, a1, a2, a3]" "A < 256" "A mod 64 < 64"
proof -
  let ?k0 = "key a0" and ?k1 = "key a1" and ?k2 = "key a2" and ?k3 = "key a3"
  have k: "?k0 \<le> 3" "?k1 \<le> 3" "?k2 \<le> 3" "?k3 \<le> 3" using fk by simp_all
  have A: "A = ?k0 + 4 * (?k1 + 4 * (?k2 + 4 * ?k3))" by (simp add: A_def)
  note dg = key_digits[OF k, folded A]
  note dg7 = dg(1-7)
  have wl: "w ?k0 \<le> 4" "w ?k1 \<le> 4" "w ?k2 \<le> 4" "w ?k3 \<le> 4" using w k by simp_all
  let ?src = "of_epi32 [a0, a1, a2, a3]"
  have ls: "length ?src = 16" by (simp add: length_of_epi32)
  show "length S = 16" unfolding S_def by (simp add: length_shuffle length_gen_row[OF w])
  show "A < 256" by (rule dg(8))
  show "A mod 64 < 64" by (rule dg(9))
  have pl: "length (payload len v) = w (key v)" for v
    using w fk kl by (simp add: payload_def length_le_bytes32)
  show gl: "gen_len w A = length (data_block len [a0, a1, a2, a3])"
    by (simp add: gen_len_def dg7 data_block_def pl)
  obtain pad where sh: "S = take (w ?k0) ?src @ take (w ?k1) (drop 4 ?src)
       @ take (w ?k2) (drop 8 ?src) @ drop 12 ?src @ pad"
    using shuffle_gen_row[OF w ls, of "A mod 64"] unfolding S_def dg7 by blast
  have t0: "take (w ?k0) ?src = payload len a0"
    using wl by (simp add: of_epi32_def payload_def kl length_le_bytes32)
  have t1: "take (w ?k1) (drop 4 ?src) = payload len a1"
    using wl by (simp add: of_epi32_def payload_def kl length_le_bytes32)
  have t2: "take (w ?k2) (drop 8 ?src) = payload len a2"
    using wl by (simp add: of_epi32_def payload_def kl length_le_bytes32)
  have t3: "drop 12 ?src = le_bytes32 a3"
    by (simp add: of_epi32_def length_le_bytes32)
  let ?P = "payload len a0 @ payload len a1 @ payload len a2"
  have lP: "length ?P = w ?k0 + w ?k1 + w ?k2" by (simp add: pl)
  have gA: "gen_len w A = length ?P + w ?k3" unfolding lP by (simp add: gen_len_def dg7)
  have S': "S = ?P @ (le_bytes32 a3 @ pad)" unfolding sh t0 t1 t2 t3 by simp
  have "take (length ?P + w ?k3) (?P @ (le_bytes32 a3 @ pad)) = ?P @ take (w ?k3) (le_bytes32 a3 @ pad)"
    by (simp only: take_append) simp
  also have "take (w ?k3) (le_bytes32 a3 @ pad) = take (w ?k3) (le_bytes32 a3)"
    using wl by (simp add: length_le_bytes32)
  also have "\<dots> = payload len a3" by (simp only: payload_def kl)
  finally have "take (gen_len w A) S = ?P @ payload len a3" unfolding gA S' .
  then show "take (gen_len w A) S = data_block len [a0, a1, a2, a3]"
    by (simp add: data_block_def)
qed

section \<open>The 8-element macros meet the format\<close>

lemma keys_index:
  fixes M :: nat
  assumes M: "M < 65536"
  defines "keys \<equiv> (ucast (of_nat M :: u32) :: u64)"
  shows "unat (push_bit 4 keys AND 0x03F0) = 16 * (M mod 64)"
    "unat (drop_bit 4 keys AND 0x03F0) = 16 * (M div 256 mod 64)"
    "unat (keys AND 0xFF) = M mod 256"
    "unat (drop_bit 8 keys) = M div 256"
    "le_bytes16 (ucast keys) = [of_nat (M mod 256), of_nat (M div 256)]"
proof -
  have u: "unat keys = M" using M by (simp add: keys_def unsigned_ucast_eq unat_of_nat take_bit_eq_mod)
  have p: "unat (push_bit 4 keys) = 16 * M"
    using M u by (simp add: push_bit_eq_mult unat_word_ariths)
  have d: "unat (drop_bit 4 keys) = M div 16"
    using u by (simp add: drop_bit_eq_div unat_div_distrib)
  have c: "(0x03F0 :: nat) = push_bit 4 (mask 6)" by (simp add: mask_eq_exp_minus_1 push_bit_eq_mult)
  have "unat (push_bit 4 keys AND 0x03F0) = 16 * M AND push_bit 4 (mask 6)"
    by (simp add: unsigned_and_eq p flip: c)
  also have "\<dots> = (16 * M div 16 mod 64) * 16" by (simp only: nat_and_field) simp
  finally show "unat (push_bit 4 keys AND 0x03F0) = 16 * (M mod 64)" by simp
  have "unat (drop_bit 4 keys AND 0x03F0) = M div 16 AND push_bit 4 (mask 6)"
    by (simp add: unsigned_and_eq d flip: c)
  also have "\<dots> = (M div 16 div 16 mod 64) * 16" by (simp only: nat_and_field) simp
  also have "M div 16 div 16 = M div 256" by (simp add: div_mult2_eq)
  finally show "unat (drop_bit 4 keys AND 0x03F0) = 16 * (M div 256 mod 64)" by simp
  have "unat (keys AND 0xFF) = M AND mask 8"
    by (simp add: unsigned_and_eq u mask_eq_exp_minus_1)
  then show "unat (keys AND 0xFF) = M mod 256" by (simp add: take_bit_eq_mod flip: take_bit_eq_mask)
  show d8: "unat (drop_bit 8 keys) = M div 256"
    using u by (simp add: drop_bit_eq_div unat_div_distrib)
  have k16: "(ucast keys :: u16) = of_nat M"
    using M by (simp add: keys_def unsigned_ucast_eq unsigned_of_nat word_of_nat_eq_iff take_bit_eq_mod)
  have b0: "(ucast (of_nat M :: u16) :: byte) = of_nat (M mod 256)"
    using M by (simp add: unsigned_of_nat word_of_nat_eq_iff take_bit_eq_mod)
  have "unat (drop_bit 8 (of_nat M :: u16)) = M div 256"
    using M by (simp add: drop_bit_eq_div unat_div_distrib unat_of_nat)
  then have "drop_bit 8 (of_nat M :: u16) = of_nat (M div 256)"
    using M by (simp add: word_unat_eq_iff unat_of_nat)
  then have b1: "(ucast (drop_bit 8 (of_nat M :: u16)) :: byte) = of_nat (M div 256)"
    using M by (simp add: unsigned_of_nat word_of_nat_eq_iff take_bit_eq_mod)
  show "le_bytes16 (ucast keys) = [of_nat (M mod 256), of_nat (M div 256)]"
    unfolding k16 le_bytes16_def b0 b1 ..
qed

lemma list4_cases:
  assumes "length xs = 4"
  obtains x0 x1 x2 x3 where "xs = [x0, x1, x2, x3]"
proof -
  from assms obtain x0 r0 where 0: "xs = x0 # r0" "length r0 = 3" by (cases xs) auto
  then obtain x1 r1 where 1: "r0 = x1 # r1" "length r1 = 2" by (cases r0) auto
  then obtain x2 r2 where 2: "r1 = x2 # r2" "length r2 = 1" by (cases r1) auto
  then obtain x3 where 3: "r2 = [x3]" by (cases r2) auto
  show ?thesis using that 0 1 2 3 by simp
qed

lemma enc8_core:
  fixes a0 a1 a2 a3 b0 b1 b2 b3 :: u32
  assumes w: "\<forall>k\<le>3. w k \<le> 4" and kl: "\<forall>v. len v = w (key v)" and fk: "\<forall>v. key v \<le> 3"
    and tab: "tab = concat (map (gen_row w) [0..<64])"
    and ltab: "map unat ltab = map (gen_len w) [0..<256]"
    and kv: "movemask KV = key_byte (map key [a0, a1, a2, a3, b0, b1, b2, b3])"
  defines "keys \<equiv> (ucast (mm_movemask_epi8 KV) :: u64)"
  defines "as \<equiv> [a0, a1, a2, a3]" and "bs \<equiv> [b0, b1, b2, b3]"
  shows "\<exists>A B. length A = 16 \<and> length B = 16
       \<and> take (length (data_block len as)) A = data_block len as
       \<and> take (length (data_block len bs)) B = data_block len bs
       \<and> (svb_storeu_u16
            (mm_storeu_si128
               (mm_storeu_si128 m dp
                  (mm_shuffle_epi8 (of_epi32 as)
                     (mm_loadu_si128_u8 tab (unat (push_bit 4 keys AND 0x03F0)))))
               (dp + unat (ltab ! unat (keys AND 0xFF)))
               (mm_shuffle_epi8 (of_epi32 bs)
                  (mm_loadu_si128_u8 tab (unat (drop_bit 4 keys AND 0x03F0)))))
            kp (ucast keys),
          kp + 2,
          dp + unat (ltab ! unat (keys AND 0xFF)) + unat (ltab ! unat (drop_bit 8 keys)))
         = (store_bytes (store_bytes (store_bytes m dp A) (dp + length (data_block len as)) B)
              kp (key_block (map key (as @ bs))),
            kp + 2, dp + length (data_block len as) + length (data_block len bs))"
proof -
  define KA where "KA = key_byte (map key as)"
  define KB where "KB = key_byte (map key bs)"
  define M where "M = key_byte (map key (as @ bs))"
  note ha = half_group[OF w kl fk, of a0 a1 a2 a3, folded as_def, folded KA_def]
  note hb = half_group[OF w kl fk, of b0 b1 b2 b3, folded bs_def, folded KB_def]
  have M: "M = KA + 256 * KB"
    unfolding M_def KA_def KB_def as_def bs_def
    using key_byte_append[of "map key [a0, a1, a2, a3]" "map key [b0, b1, b2, b3]"] by simp
  have KA: "KA < 256" by (rule ha(4))
  have KB: "KB < 256" by (rule hb(4))
  have M16: "M < 65536" unfolding M using KA KB by simp
  have m256: "M mod 256 = KA" unfolding M using KA by simp
  have d256: "M div 256 = KB" unfolding M using KA by simp
  have "M mod 64 = M mod 256 mod 64" by (simp add: mod_mod_cancel)
  then have m64: "M mod 64 = KA mod 64" by (simp only: m256)
  have keys: "keys = ucast (of_nat M :: u32)"
    unfolding keys_def mm_movemask_epi8_def kv M_def as_def bs_def by simp
  note ix = keys_index[OF M16, folded keys]
  have sa: "mm_loadu_si128_u8 tab (unat (push_bit 4 keys AND 0x03F0)) = gen_row w (KA mod 64)"
    unfolding ix(1) m64 tab by (rule load_gen_row[OF w ha(5)])
  have sb: "mm_loadu_si128_u8 tab (unat (drop_bit 4 keys AND 0x03F0)) = gen_row w (KB mod 64)"
    unfolding ix(2) d256 tab by (rule load_gen_row[OF w hb(5)])
  have la: "unat (ltab ! unat (keys AND 0xFF)) = length (data_block len as)"
    unfolding ix(3) m256 len_table_nth[OF ltab KA] by (rule ha(2))
  have lb: "unat (ltab ! unat (drop_bit 8 keys)) = length (data_block len bs)"
    unfolding ix(4) d256 len_table_nth[OF ltab KB] by (rule hb(2))
  have kb: "le_bytes16 (ucast keys) = key_block (map key (as @ bs))"
  proof -
    have "key_block (map key (as @ bs))
        = [of_nat (key_byte (take 4 (map key (as @ bs)))), of_nat (key_byte (drop 4 (map key (as @ bs))))]"
      by (rule key_block_two) (simp_all add: as_def bs_def)
    also have "take 4 (map key (as @ bs)) = map key as" by (simp add: as_def)
    also have "drop 4 (map key (as @ bs)) = map key bs" by (simp add: as_def)
    finally show ?thesis unfolding ix(5) m256 d256 KA_def KB_def by simp
  qed
  show ?thesis
    unfolding sa sb la lb svb_storeu_u16_def mm_storeu_si128_def kb
    by (rule exI[of _ "mm_shuffle_epi8 (of_epi32 as) (gen_row w (KA mod 64))"],
        rule exI[of _ "mm_shuffle_epi8 (of_epi32 bs) (gen_row w (KB mod 64))"])
       (simp only: ha(1) hb(1) ha(3)[unfolded ha(2)] hb(3)[unfolded hb(2)] simp_thms)
qed

lemma enc8_spec_svb1: "enc8_spec svb1_key_spec svb1_len_spec SVB1_ENCODE8"
  unfolding enc8_spec_def
proof (intro allI impI)
  fix m kp dp and as bs :: "u32 list"
  assume "length as = 4 \<and> length bs = 4"
  then obtain a0 a1 a2 a3 b0 b1 b2 b3 where as: "as = [a0, a1, a2, a3]" and bs: "bs = [b0, b1, b2, b3]"
    by (metis list4_cases)
  have w: "\<forall>k\<le>3. svb1_width k \<le> 4" by (simp add: svb1_width_le)
  have kl: "\<forall>v. svb1_len_spec v = svb1_width (svb1_key_spec v)"
    by (simp add: svb1_len_spec_def svb1_width_def)
  have fk: "\<forall>v. svb1_key_spec v \<le> 3" by (simp add: svb1_key_spec_le3)
  have kv: "movemask (of_epi16 (map svb1_lane [a0, a1, a2, a3, b0, b1, b2, b3]))
      = key_byte (map svb1_key_spec [a0, a1, a2, a3, b0, b1, b2, b3])"
    unfolding movemask_of_epi16 by (simp add: lane2_svb1)
  show "\<exists>A B. length A = 16 \<and> length B = 16
       \<and> take (length (data_block svb1_len_spec as)) A = data_block svb1_len_spec as
       \<and> take (length (data_block svb1_len_spec bs)) B = data_block svb1_len_spec bs
       \<and> SVB1_ENCODE8 m kp dp (of_epi32 as) (of_epi32 bs)
         = (store_bytes (store_bytes (store_bytes m dp A) (dp + length (data_block svb1_len_spec as)) B)
              kp (key_block (map svb1_key_spec (as @ bs))),
            kp + 2, dp + length (data_block svb1_len_spec as) + length (data_block svb1_len_spec bs))"
    unfolding SVB1_ENCODE8_def Let_def as bs svb1_keys_vec
    by (rule enc8_core[OF w kl fk svb1_enc_table_gen svb1_len_table_gen kv])
qed

lemma enc8_spec_svb0: "enc8_spec svb0_key_spec svb0_len_spec SVB0_ENCODE8"
  unfolding enc8_spec_def
proof (intro allI impI)
  fix m kp dp and as bs :: "u32 list"
  assume "length as = 4 \<and> length bs = 4"
  then obtain a0 a1 a2 a3 b0 b1 b2 b3 where as: "as = [a0, a1, a2, a3]" and bs: "bs = [b0, b1, b2, b3]"
    by (metis list4_cases)
  have w: "\<forall>k\<le>3. svb0_width k \<le> 4" by (simp add: svb0_width_le)
  have kl: "\<forall>v. svb0_len_spec v = svb0_width (svb0_key_spec v)"
    by (simp add: svb0_len_spec_def svb0_width_def)
  have fk: "\<forall>v. svb0_key_spec v \<le> 3" by (simp add: svb0_key_spec_le3)
  have kv: "movemask (of_epi16 (map svb0_lane [a0, a1, a2, a3, b0, b1, b2, b3]))
      = key_byte (map svb0_key_spec [a0, a1, a2, a3, b0, b1, b2, b3])"
    unfolding movemask_of_epi16 by (simp add: lane2_svb0)
  show "\<exists>A B. length A = 16 \<and> length B = 16
       \<and> take (length (data_block svb0_len_spec as)) A = data_block svb0_len_spec as
       \<and> take (length (data_block svb0_len_spec bs)) B = data_block svb0_len_spec bs
       \<and> SVB0_ENCODE8 m kp dp (of_epi32 as) (of_epi32 bs)
         = (store_bytes (store_bytes (store_bytes m dp A) (dp + length (data_block svb0_len_spec as)) B)
              kp (key_block (map svb0_key_spec (as @ bs))),
            kp + 2, dp + length (data_block svb0_len_spec as) + length (data_block svb0_len_spec bs))"
    unfolding SVB0_ENCODE8_def Let_def as bs svb0_keys_vec
    by (rule enc8_core[OF w kl fk svb0_enc_table_gen svb0_len_table_gen kv])
qed

section \<open>The 8-element chunk loops\<close>

lemma length_payload: "length (payload len v) = min (len v) 4"
  by (simp add: payload_def length_le_bytes32)

lemma length_data_block_le: "fmt_ok key len \<Longrightarrow> length (data_block len vs) \<le> 4 * length vs"
proof (induction vs)
  case Nil then show ?case by (simp add: data_block_def)
next
  case (Cons v vs)
  then show ?case by (simp add: data_block_def length_payload)
qed

lemma data_block_append: "data_block len (xs @ ys) = data_block len xs @ data_block len ys"
  by (simp add: data_block_def)

lemma x64_chunk_step_inv:
  fixes a0 a1 a2 a3 b0 b1 b2 b3 :: u32
  assumes spec: "enc8_spec key len E" and fk: "fmt_ok key len"
    and inv: "enc_inv m0 kb bound m kp dp (key_block pre) D"
    and pre4: "length pre mod 4 = 0"
    and capd: "dp + 32 \<le> bound" and capk: "kp + 2 \<le> bound"
  defines "vs \<equiv> [a0, a1, a2, a3, b0, b1, b2, b3]"
  shows "\<exists>m' dp'. E m kp dp (of_epi32 [a0, a1, a2, a3]) (of_epi32 [b0, b1, b2, b3]) = (m', kp + 2, dp')
           \<and> dp' \<le> dp + 32
           \<and> enc_inv m0 kb bound m' (kp + 2) dp' (key_block (pre @ map key vs)) (D @ data_block len vs)"
proof -
  let ?as = "[a0, a1, a2, a3]" and ?bs = "[b0, b1, b2, b3]"
  let ?la = "length (data_block len ?as)" and ?lb = "length (data_block len ?bs)"
  from spec[unfolded enc8_spec_def, rule_format, of ?as ?bs m kp dp]
  obtain A B where lA: "length A = 16" and lB: "length B = 16"
    and tA: "take ?la A = data_block len ?as" and tB: "take ?lb B = data_block len ?bs"
    and E: "E m kp dp (of_epi32 ?as) (of_epi32 ?bs)
       = (store_bytes (store_bytes (store_bytes m dp A) (dp + ?la) B) kp (key_block (map key (?as @ ?bs))),
          kp + 2, dp + ?la + ?lb)"
    by auto
  have la: "?la \<le> 16" using length_data_block_le[OF fk, of ?as] by simp
  have lb: "?lb \<le> 16" using length_data_block_le[OF fk, of ?bs] by simp
  have i1: "enc_inv m0 kb bound (store_bytes m dp A) kp (dp + ?la) (key_block pre) (D @ take ?la A)"
    using la capd by (intro enc_inv_data[OF inv]) (simp_all add: lA)
  have i2: "enc_inv m0 kb bound (store_bytes (store_bytes m dp A) (dp + ?la) B) kp (dp + ?la + ?lb)
       (key_block pre) ((D @ take ?la A) @ take ?lb B)"
    using la lb capd by (intro enc_inv_data[OF i1]) (simp_all add: lB)
  have lk: "length (key_block (map key (?as @ ?bs))) = 2" by (simp add: length_key_block)
  have i3: "enc_inv m0 kb bound
       (store_bytes (store_bytes (store_bytes m dp A) (dp + ?la) B) kp (key_block (map key (?as @ ?bs))))
       (kp + length (key_block (map key (?as @ ?bs)))) (dp + ?la + ?lb)
       (key_block pre @ key_block (map key (?as @ ?bs))) ((D @ take ?la A) @ take ?lb B)"
    using capk by (intro enc_inv_key[OF i2]) (simp only: lk)
  have K: "key_block pre @ key_block (map key (?as @ ?bs)) = key_block (pre @ map key vs)"
    unfolding vs_def using key_block_append[OF pre4, of "map key (?as @ ?bs)"] by simp
  have D: "(D @ take ?la A) @ take ?lb B = D @ data_block len vs"
    unfolding tA tB vs_def using data_block_append[of len ?as ?bs] by simp
  show ?thesis
    unfolding E using i3[unfolded lk K D] la lb by simp
qed

lemma x64_chunk_fold_inv:
  assumes spec: "enc8_spec key len E" and fk: "fmt_ok key len"
  shows "length vs = 8 * n \<Longrightarrow> enc_inv m0 kb bound m kp dp (key_block pre) D \<Longrightarrow> length pre mod 4 = 0
     \<Longrightarrow> dp + 4 * length vs \<le> bound \<Longrightarrow> kp + length vs div 4 \<le> bound
     \<Longrightarrow> \<exists>m' dp'. x64_chunk_fold E (m, kp, dp) vs = (m', kp + length vs div 4, dp')
            \<and> enc_inv m0 kb bound m' (kp + length vs div 4) dp'
                 (key_block (pre @ map key vs)) (D @ data_block len vs)"
proof (induction n arbitrary: vs m kp dp pre D)
  case 0
  then show ?case by (simp add: data_block_def)
next
  case (Suc n)
  let ?h = "take 8 vs" and ?t = "drop 8 vs"
  have lh: "length ?h = 8" and lt: "length ?t = 8 * n" using Suc.prems(1) by simp_all
  have dv: "length vs div 4 = 2 * n + 2" unfolding Suc.prems(1) by simp
  have dt: "length ?t div 4 = 2 * n" unfolding lt by simp
  note cd = Suc.prems(4)[unfolded Suc.prems(1)]
  note ck = Suc.prems(5)[unfolded dv]
  obtain a0 a1 a2 a3 b0 b1 b2 b3 where h: "?h = [a0, a1, a2, a3, b0, b1, b2, b3]"
  proof -
    have 1: "length (take 4 ?h) = 4" and 2: "length (drop 4 ?h) = 4" using lh by simp_all
    obtain a0 a1 a2 a3 where a: "take 4 ?h = [a0, a1, a2, a3]" using 1 by (rule list4_cases)
    obtain b0 b1 b2 b3 where b: "drop 4 ?h = [b0, b1, b2, b3]" using 2 by (rule list4_cases)
    have "?h = take 4 ?h @ drop 4 ?h" by (simp only: append_take_drop_id)
    then have "?h = [a0, a1, a2, a3, b0, b1, b2, b3]" unfolding a b by simp
    then show ?thesis by (rule that)
  qed
  have vs: "[a0, a1, a2, a3, b0, b1, b2, b3] @ ?t = vs"
    using append_take_drop_id[of 8 vs] unfolding h .
  have capd: "dp + 32 \<le> bound" using cd by simp
  have capk: "kp + 2 \<le> bound" using ck by simp
  from x64_chunk_step_inv[OF spec fk Suc.prems(2) Suc.prems(3) capd capk, of a0 a1 a2 a3 b0 b1 b2 b3]
  obtain m1 dp1 where E: "E m kp dp (of_epi32 [a0, a1, a2, a3]) (of_epi32 [b0, b1, b2, b3]) = (m1, kp + 2, dp1)"
    and dp1: "dp1 \<le> dp + 32"
    and inv1: "enc_inv m0 kb bound m1 (kp + 2) dp1 (key_block (pre @ map key ?h)) (D @ data_block len ?h)"
    unfolding h by blast
  have "length (pre @ map key ?h) = length pre + 8" using lh by simp
  then have p4: "length (pre @ map key ?h) mod 4 = 0" using Suc.prems(3) by presburger
  have c1: "dp1 + 4 * length ?t \<le> bound" unfolding lt using dp1 cd by simp
  have c2: "kp + 2 + length ?t div 4 \<le> bound" unfolding dt using ck by simp
  from Suc.IH[OF lt inv1 p4 c1 c2]
  obtain m' dp' where F: "x64_chunk_fold E (m1, kp + 2, dp1) ?t = (m', kp + 2 + length ?t div 4, dp')"
    and inv': "enc_inv m0 kb bound m' (kp + 2 + length ?t div 4) dp'
        (key_block ((pre @ map key ?h) @ map key ?t)) ((D @ data_block len ?h) @ data_block len ?t)"
    by blast
  have k: "kp + 2 + length ?t div 4 = kp + length vs div 4" unfolding dt dv by simp
  have KK: "(pre @ map key ?h) @ map key ?t = pre @ map key vs"
    by (simp only: append_assoc map_append[symmetric] append_take_drop_id)
  have DD: "(D @ data_block len ?h) @ data_block len ?t = D @ data_block len vs"
    by (simp only: append_assoc data_block_append[symmetric] append_take_drop_id)
  have "x64_chunk_fold E (m, kp, dp) vs = x64_chunk_fold E (m1, kp + 2, dp1) ?t"
    by (subst vs[symmetric]) (simp add: E)
  then show ?case using F inv' unfolding k KK DD by simp
qed

section \<open>The vector filters act lane by lane\<close>

lemma le_bytes32_xor:
  "map2 (XOR) (le_bytes32 x) (le_bytes32 y) = le_bytes32 (x XOR y)"
proof -
  have "(ucast (drop_bit n x) :: byte) XOR ucast (drop_bit n y) = ucast (drop_bit n (x XOR y))" for n
    by (rule bit_word_eqI) (simp add: bit_simps)
  from this[of 0] this[of 8] this[of 16] this[of 24] show ?thesis
    by (simp add: le_bytes32_def)
qed

lemma of_epi32_xor_4:
  "mm_xor_si128 (of_epi32 [a, b, c, d]) (of_epi32 [a', b', c', d'])
     = of_epi32 [a XOR a', b XOR b', c XOR c', d XOR d']"
proof -
  have "mm_xor_si128 (of_epi32 [a, b, c, d]) (of_epi32 [a', b', c', d'])
      = map2 (XOR) (le_bytes32 a) (le_bytes32 a') @ map2 (XOR) (le_bytes32 b) (le_bytes32 b')
        @ map2 (XOR) (le_bytes32 c) (le_bytes32 c') @ map2 (XOR) (le_bytes32 d) (le_bytes32 d')"
    by (simp add: mm_xor_si128_def of_epi32_def le_bytes32_def)
  then show ?thesis by (simp only: le_bytes32_xor) (simp add: of_epi32_def)
qed

lemma sint_neg_bit: "(sint (v::u32) < 0) = bit v 31"
  using bit_last_iff[of v] by simp

lemma mm_zigzag_lanes:
  "mm_zigzag_encode_epi32 (of_epi32 [a, b, c, d])
     = of_epi32 [zigzag_encode_32 a, zigzag_encode_32 b, zigzag_encode_32 c, zigzag_encode_32 d]"
proof -
  have z: "epi32 mm_setzero_si128 = [0, 0, 0, 0]"
    by (simp add: mm_setzero_si128_def replicate16 u32_of_def)
  show ?thesis
    unfolding mm_zigzag_encode_epi32_def Let_def mm_cmpgt_epi32_def mm_add_epi32_def
      epi32_of_epi32_4 z
    by (simp add: of_epi32_xor_4 zigzag_encode_32_def sdb31 sint_neg_bit)
qed

lemma alignr_12:
  "mm_alignr_epi8 (of_epi32 [a, b, c, d]) (of_epi32 [p0, p1, p2, p]) 12 = of_epi32 [p, a, b, c]"
  by (simp add: mm_alignr_epi8_def of_epi32_def le_bytes32_def)

lemma mm_delta_lanes:
  "mm_delta_encode_epi32 (of_epi32 [a, b, c, d]) (of_epi32 [p0, p1, p2, p])
     = of_epi32 [delta_encode_32 a p, delta_encode_32 b a, delta_encode_32 c b, delta_encode_32 d c]"
  unfolding mm_delta_encode_epi32_def alignr_12 mm_sub_epi32_def epi32_of_epi32_4
  by (simp add: delta_encode_32_def)

lemma mm_delta_zigzag_lanes:
  "mm_delta_zigzag_encode_epi32 (of_epi32 [a, b, c, d]) (of_epi32 [p0, p1, p2, p])
     = of_epi32 [delta_zigzag_encode_32 a p, delta_zigzag_encode_32 b a,
                 delta_zigzag_encode_32 c b, delta_zigzag_encode_32 d c]"
  unfolding mm_delta_zigzag_encode_epi32_def mm_delta_lanes mm_zigzag_lanes
  by (simp add: delta_zigzag_encode_32_def)

lemma insert_lane3:
  "mm_insert_epi32 (of_epi32 [u0, u1, u2, u3]) p 3 = of_epi32 [u0, u1, u2, p]"
  by (simp add: mm_insert_epi32_def epi32_of_epi32_4)

lemma extract_lane3: "mm_extract_epi32 (of_epi32 [u0, u1, u2, u3]) 3 = u3"
  by (simp add: mm_extract_epi32_def epi32_of_epi32_4)

section \<open>The chunk loops are folds\<close>

lemma take8_drop:
  assumes "i + 8 \<le> length xs"
  shows "take (8 + k) (drop i xs)
     = [xs ! i, xs ! (i + 1), xs ! (i + 2), xs ! (i + 3), xs ! (i + 4), xs ! (i + 5), xs ! (i + 6), xs ! (i + 7)]
       @ take k (drop (i + 8) xs)"
proof -
  have s: "take (Suc n) (drop j xs) = xs ! j # take n (drop (Suc j) xs)" if "j < length xs" for j n
    using that by (rule take_drop_step)
  have e: "8 + k = Suc (Suc (Suc (Suc (Suc (Suc (Suc (Suc k)))))))" by simp
  have l: "i < length xs" "Suc i < length xs" "Suc (Suc i) < length xs" "Suc (Suc (Suc i)) < length xs"
    "Suc (Suc (Suc (Suc i))) < length xs" "Suc (Suc (Suc (Suc (Suc i)))) < length xs"
    "Suc (Suc (Suc (Suc (Suc (Suc i))))) < length xs" "Suc (Suc (Suc (Suc (Suc (Suc (Suc i)))))) < length xs"
    using assms by simp_all
  have "take (8 + k) (drop i xs)
     = [xs ! i, xs ! Suc i, xs ! Suc (Suc i), xs ! Suc (Suc (Suc i)), xs ! Suc (Suc (Suc (Suc i))),
        xs ! Suc (Suc (Suc (Suc (Suc i)))), xs ! Suc (Suc (Suc (Suc (Suc (Suc i))))),
        xs ! Suc (Suc (Suc (Suc (Suc (Suc (Suc i))))))]
       @ take k (drop (Suc (Suc (Suc (Suc (Suc (Suc (Suc (Suc i)))))))) xs)"
    unfolding e by (simp only: s[OF l(1)] s[OF l(2)] s[OF l(3)] s[OF l(4)] s[OF l(5)] s[OF l(6)]
        s[OF l(7)] s[OF l(8)] append_Cons append_Nil)
  also have "\<dots> = [xs ! i, xs ! (i + 1), xs ! (i + 2), xs ! (i + 3), xs ! (i + 4), xs ! (i + 5),
        xs ! (i + 6), xs ! (i + 7)] @ take k (drop (i + 8) xs)"
  proof -
    have q: "Suc i = i + 1" "Suc (i + 1) = i + 2" "Suc (i + 2) = i + 3" "Suc (i + 3) = i + 4"
      "Suc (i + 4) = i + 5" "Suc (i + 5) = i + 6" "Suc (i + 6) = i + 7" "Suc (i + 7) = i + 8"
      by simp_all
    show ?thesis by (simp only: q)
  qed
  finally show ?thesis .
qed

lemma x64_chunk_loop_unfold:
  "x64_chunk_loop E vfilt inp end i m kp dp =
     (case E m kp dp (vfilt (mm_loadu_si128_u32 inp i)) (vfilt (mm_loadu_si128_u32 inp (i + 4))) of
        (m', kp', dp') \<Rightarrow>
          if i + 8 < end then x64_chunk_loop E vfilt inp end (i + 8) m' kp' dp'
          else (m', kp', dp', i + 8))"
  by (subst x64_chunk_loop.simps) (simp add: Let_def split: prod.splits)

lemma x64_delta_chunk_loop_unfold:
  "x64_delta_chunk_loop E vfilt inp end i prev m kp dp =
     (case E m kp dp (vfilt (mm_loadu_si128_u32 inp i) prev)
             (vfilt (mm_loadu_si128_u32 inp (i + 4)) (mm_loadu_si128_u32 inp i)) of
        (m', kp', dp') \<Rightarrow>
          if i + 8 < end
          then x64_delta_chunk_loop E vfilt inp end (i + 8) (mm_loadu_si128_u32 inp (i + 4)) m' kp' dp'
          else (m', kp', dp', i + 8, mm_loadu_si128_u32 inp (i + 4)))"
  by (subst x64_delta_chunk_loop.simps) (simp add: Let_def split: prod.splits)

lemma loadu_lanes:
  "mm_loadu_si128_u32 inp (i + 4) = of_epi32 [inp ! (i + 4), inp ! (i + 5), inp ! (i + 6), inp ! (i + 7)]"
proof -
  have q: "i + 4 + 1 = i + 5" "i + 4 + 2 = i + 6" "i + 4 + 3 = i + 7" by simp_all
  show ?thesis unfolding mm_loadu_si128_u32_def q ..
qed

lemma x64_chunk_loop_fold:
  assumes vf: "\<And>a b c d. vfilt (of_epi32 [a, b, c, d]) = of_epi32 [f a, f b, f c, f d]"
  shows "end = i + 8 * Suc n \<Longrightarrow> end \<le> length inp \<Longrightarrow>
     x64_chunk_loop E vfilt inp end i m kp dp =
       (case x64_chunk_fold E (m, kp, dp) (map f (take (8 * Suc n) (drop i inp))) of
          (m', kp', dp') \<Rightarrow> (m', kp', dp', end))"
proof (induction n arbitrary: i m kp dp)
  case 0
  have t: "take (8 * Suc 0) (drop i inp) = [inp ! i, inp ! (i + 1), inp ! (i + 2), inp ! (i + 3),
      inp ! (i + 4), inp ! (i + 5), inp ! (i + 6), inp ! (i + 7)]"
    using take8_drop[of i inp 0] 0 by simp
  obtain m' kp' dp' where E: "E m kp dp (of_epi32 [f (inp ! i), f (inp ! (i + 1)), f (inp ! (i + 2)), f (inp ! (i + 3))])
      (of_epi32 [f (inp ! (i + 4)), f (inp ! (i + 5)), f (inp ! (i + 6)), f (inp ! (i + 7))]) = (m', kp', dp')"
    by (rule prod_cases3)
  show ?case
    unfolding t x64_chunk_loop_unfold[where i=i] loadu_lanes
    by (simp add: mm_loadu_si128_u32_def vf E 0(1))
next
  case (Suc n)
  have e: "8 * Suc (Suc n) = 8 + 8 * Suc n" by simp
  have t: "take (8 * Suc (Suc n)) (drop i inp) = [inp ! i, inp ! (i + 1), inp ! (i + 2), inp ! (i + 3),
      inp ! (i + 4), inp ! (i + 5), inp ! (i + 6), inp ! (i + 7)] @ take (8 * Suc n) (drop (i + 8) inp)"
    unfolding e using Suc.prems by (intro take8_drop) simp
  obtain m' kp' dp' where E: "E m kp dp (of_epi32 [f (inp ! i), f (inp ! (i + 1)), f (inp ! (i + 2)), f (inp ! (i + 3))])
      (of_epi32 [f (inp ! (i + 4)), f (inp ! (i + 5)), f (inp ! (i + 6)), f (inp ! (i + 7))]) = (m', kp', dp')"
    by (rule prod_cases3)
  have c: "i + 8 < end" and e': "end = (i + 8) + 8 * Suc n" using Suc.prems(1) by simp_all
  show ?case
    unfolding t x64_chunk_loop_unfold[where i=i] loadu_lanes
    using c by (simp add: mm_loadu_si128_u32_def vf E Suc.IH[OF e' Suc.prems(2)])
qed

lemma x64_delta_chunk_loop_fold:
  assumes vf: "\<And>a b c d p0 p1 p2 p. vfilt (of_epi32 [a, b, c, d]) (of_epi32 [p0, p1, p2, p])
       = of_epi32 [f a p, f b a, f c b, f d c]"
  shows "end = i + 8 * Suc n \<Longrightarrow> end \<le> length inp \<Longrightarrow>
     x64_delta_chunk_loop E vfilt inp end i (of_epi32 [p0, p1, p2, p]) m kp dp =
       (case x64_chunk_fold E (m, kp, dp) (deltas f p (take (8 * Suc n) (drop i inp))) of
          (m', kp', dp') \<Rightarrow> (m', kp', dp', end, mm_loadu_si128_u32 inp (end - 4)))"
proof (induction n arbitrary: i m kp dp p0 p1 p2 p)
  case 0
  have t: "take (8 * Suc 0) (drop i inp) = [inp ! i, inp ! (i + 1), inp ! (i + 2), inp ! (i + 3),
      inp ! (i + 4), inp ! (i + 5), inp ! (i + 6), inp ! (i + 7)]"
    using take8_drop[of i inp 0] 0 by simp
  obtain m' kp' dp' where E: "E m kp dp
      (of_epi32 [f (inp ! i) p, f (inp ! (i + 1)) (inp ! i), f (inp ! (i + 2)) (inp ! (i + 1)),
                 f (inp ! (i + 3)) (inp ! (i + 2))])
      (of_epi32 [f (inp ! (i + 4)) (inp ! (i + 3)), f (inp ! (i + 5)) (inp ! (i + 4)),
                 f (inp ! (i + 6)) (inp ! (i + 5)), f (inp ! (i + 7)) (inp ! (i + 6))]) = (m', kp', dp')"
    by (rule prod_cases3)
  have l: "mm_loadu_si128_u32 inp i = of_epi32 [inp ! i, inp ! (i + 1), inp ! (i + 2), inp ! (i + 3)]"
    by (simp add: mm_loadu_si128_u32_def)
  have en: "end - 4 = i + 4" "end = i + 8" using 0(1) by simp_all
  have d: "deltas f p [x0, x1, x2, x3, x4, x5, x6, x7]
      = [f x0 p, f x1 x0, f x2 x1, f x3 x2, f x4 x3, f x5 x4, f x6 x5, f x7 x6]"
    for x0 x1 x2 x3 x4 x5 x6 x7 by simp
  have nc: "\<not> i + 8 < i + 8" by simp
  show ?case
    unfolding en(1) unfolding en(2) t d x64_delta_chunk_loop_unfold[where i=i] l loadu_lanes vf E
    by (simp only: x64_chunk_fold.simps E prod.case nc if_False)
next
  case (Suc n)
  have e: "8 * Suc (Suc n) = 8 + 8 * Suc n" by simp
  have t: "take (8 * Suc (Suc n)) (drop i inp) = [inp ! i, inp ! (i + 1), inp ! (i + 2), inp ! (i + 3),
      inp ! (i + 4), inp ! (i + 5), inp ! (i + 6), inp ! (i + 7)] @ take (8 * Suc n) (drop (i + 8) inp)"
    unfolding e using Suc.prems by (intro take8_drop) simp
  obtain m' kp' dp' where E: "E m kp dp
      (of_epi32 [f (inp ! i) p, f (inp ! (i + 1)) (inp ! i), f (inp ! (i + 2)) (inp ! (i + 1)),
                 f (inp ! (i + 3)) (inp ! (i + 2))])
      (of_epi32 [f (inp ! (i + 4)) (inp ! (i + 3)), f (inp ! (i + 5)) (inp ! (i + 4)),
                 f (inp ! (i + 6)) (inp ! (i + 5)), f (inp ! (i + 7)) (inp ! (i + 6))]) = (m', kp', dp')"
    by (rule prod_cases3)
  have l: "mm_loadu_si128_u32 inp i = of_epi32 [inp ! i, inp ! (i + 1), inp ! (i + 2), inp ! (i + 3)]"
    by (simp add: mm_loadu_si128_u32_def)
  have c: "i + 8 < end" and e': "end = (i + 8) + 8 * Suc n" using Suc.prems(1) by simp_all
  have d: "deltas f p ([x0, x1, x2, x3, x4, x5, x6, x7] @ r)
      = [f x0 p, f x1 x0, f x2 x1, f x3 x2, f x4 x3, f x5 x4, f x6 x5, f x7 x6] @ deltas f x7 r"
    for x0 x1 x2 x3 x4 x5 x6 x7 r by simp
  note IH = Suc.IH[OF e' Suc.prems(2), of "inp ! (i + 4)" "inp ! (i + 5)" "inp ! (i + 6)" "inp ! (i + 7)"]
  show ?case
    unfolding t d x64_delta_chunk_loop_unfold[where i=i] l loadu_lanes vf E
    by (simp only: append_Cons append_Nil x64_chunk_fold.simps E prod.case c if_True IH)
qed

section \<open>Whole runs of the x64 encoders\<close>

lemma int_and_not_mask: "(k::int) AND NOT (mask n) = push_bit n (drop_bit n k)"
  by (rule bit_eqI) (auto simp add: bit_simps)

lemma count_and_not_7: "nat (int N AND NOT 7) = 8 * (N div 8)"
proof -
  have "(7::int) = mask 3" by (simp add: mask_eq_exp_minus_1)
  then have "int N AND NOT 7 = push_bit 3 (drop_bit 3 (int N))" by (simp only: int_and_not_mask)
  also have "\<dots> = int (8 * (N div 8))" by (simp add: push_bit_eq_mult drop_bit_eq_div zdiv_int)
  finally show ?thesis by (simp only: nat_int)
qed

lemma count_and_7: "(N::nat) AND 7 = N mod 8"
proof -
  have "(7::nat) = mask 3" by (simp add: mask_eq_exp_minus_1)
  then have "N AND 7 = take_bit 3 N" by (simp only: take_bit_eq_mask)
  then show ?thesis by (simp add: take_bit_eq_mod)
qed

lemma deltas_append:
  "deltas f p (xs @ ys) = deltas f p xs @ deltas f (last (p # xs)) ys"
  by (induction xs arbitrary: p) simp_all

lemma key_block_len_split:
  "svb_key_block_len N = 2 * (N div 8) + (N mod 8 + 3) div 4"
  unfolding svb_key_block_len_def by presburger

lemma dp_le:
  assumes "enc_inv m0 kb bound m kp dp K (data_block len vs)" and "fmt_ok key len"
  shows "dp \<le> kb + 4 * length vs"
  using assms(1) length_data_block_le[OF assms(2), of vs] by (simp add: enc_inv_def)

lemma x64_chunks_run:
  assumes s8: "enc8_spec key len E8" and fk: "fmt_ok key len"
    and lv: "length vs = 8 * q" and q: "8 * q \<le> N"
  shows "\<exists>m1 dp1. x64_chunk_fold E8 (out, 0, svb_key_block_len N) vs = (m1, 2 * q, dp1)
     \<and> enc_inv out (svb_key_block_len N) (streamvbyte_compress_bound N) m1 (2 * q) dp1
          (key_block (map key vs)) (data_block len vs)"
proof -
  let ?kb = "svb_key_block_len N" and ?bound = "streamvbyte_compress_bound N"
  have i0: "enc_inv out ?kb ?bound out 0 ?kb (key_block []) []" using enc_inv_init[of out ?kb ?bound] by simp
  have p0: "length ([]::nat list) mod 4 = 0" by simp
  have c1: "?kb + 4 * length vs \<le> ?bound"
    unfolding lv using q by (simp add: streamvbyte_compress_bound_def Let_def)
  have d4: "length vs div 4 = 2 * q" unfolding lv by simp
  have c2: "0 + length vs div 4 \<le> ?bound"
    unfolding d4 using q by (simp add: streamvbyte_compress_bound_def Let_def)
  from x64_chunk_fold_inv[OF s8 fk lv i0 p0 c1 c2] show ?thesis
    unfolding d4 by (simp add: data_block_def)
qed

lemma x64_finish:
  assumes s1: "enc1_spec key len E1" and fk: "fmt_ok key len"
    and inv: "enc_inv out (svb_key_block_len N) (streamvbyte_compress_bound N) m1 (2 * (N div 8)) dp1
          (key_block (map key vs1)) (data_block len vs1)"
    and l1: "length vs1 = 8 * (N div 8)" and l2: "length vs2 = N mod 8"
  shows "encoded out N (svb_stream key len (vs1 @ vs2))
     (if N mod 8 \<noteq> 0
      then (case x64_tail_fold E1 0 (m1, 0, dp1) vs2 of
              (m, keys, dp) \<Rightarrow> (x64_store_tail_keys m (2 * (N div 8)) keys (N mod 8), dp))
      else (m1, dp1))"
proof (cases "N mod 8 = 0")
  case True
  then have v2: "vs2 = []" using l2 by simp
  have "N = 8 * (N div 8)" using True by presburger
  then have lk: "length (key_block (map key vs1)) = svb_key_block_len N"
    unfolding length_key_block svb_key_block_len_def length_map l1 by presburger
  from enc_inv_encoded[OF inv lk] show ?thesis using True v2 by (simp add: svb_stream_def)
next
  case False
  let ?q = "N div 8" and ?r = "N mod 8"
  let ?kb = "svb_key_block_len N" and ?bound = "streamvbyte_compress_bound N"
  have ne: "vs2 \<noteq> []" using False l2 by auto
  have l7: "length vs2 \<le> 7" unfolding l2 by simp
  have p4: "length (map key vs1) mod 4 = 0" unfolding length_map l1 by presburger
  have a: "dp1 \<le> ?kb + 4 * (8 * ?q)" using dp_le[OF inv fk] unfolding l1 .
  have b: "4 * (8 * ?q) + 4 * ?r = N * 4" by presburger
  have capd: "dp1 + 4 * length vs2 \<le> ?bound"
    unfolding l2 streamvbyte_compress_bound_def Let_def using a b by linarith
  have ks: "2 * ?q + (?r + 3) div 4 = ?kb" by (simp only: key_block_len_split)
  have capk: "2 * ?q + (length vs2 + 3) div 4 \<le> ?bound"
    unfolding l2 ks by (simp add: streamvbyte_compress_bound_def Let_def)
  from x64_tail_run[OF s1 fk inv p4 ne l7 capd capk]
  obtain m' keys dp' where F: "x64_tail_fold E1 0 (m1, 0, dp1) vs2 = (m', keys, dp')"
    and inv': "enc_inv out ?kb ?bound (x64_store_tail_keys m' (2 * ?q) keys (length vs2))
           (2 * ?q + (length vs2 + 3) div 4) dp' (key_block (map key vs1 @ map key vs2))
           (data_block len vs1 @ data_block len vs2)"
    by blast
  have "length (map key vs1 @ map key vs2) = N" using l1 l2 by simp
  then have lk: "length (key_block (map key vs1 @ map key vs2)) = ?kb"
    unfolding length_key_block svb_key_block_len_def by simp
  from enc_inv_encoded[OF inv' lk] show ?thesis
    using False by (simp add: F l2 svb_stream_def data_block_append)
qed

lemma x64_enc_encoded:
  assumes s8: "enc8_spec key len E8" and s1: "enc1_spec key len E1" and fk: "fmt_ok key len"
    and vf: "\<And>a b c d. vfilt (of_epi32 [a, b, c, d]) = of_epi32 [f a, f b, f c, f d]"
  shows "encoded out (length inp) (svb_stream key len (map f inp)) (x64_enc E8 E1 vfilt f inp out)"
proof -
  let ?N = "length inp"
  let ?q = "?N div 8" and ?r = "?N mod 8"
  let ?kb = "svb_key_block_len ?N"
  let ?vs1 = "map f (take (8 * ?q) inp)" and ?vs2 = "map f (drop (8 * ?q) inp)"
  have q: "8 * ?q \<le> ?N" by presburger
  have l1: "length ?vs1 = 8 * ?q" using q by simp
  have l2: "length ?vs2 = ?r" by simp presburger
  have vs: "?vs1 @ ?vs2 = map f inp" by (simp only: map_append[symmetric] append_take_drop_id)
  from x64_chunks_run[OF s8 fk l1 q]
  obtain m1 dp1 where F: "x64_chunk_fold E8 (out, 0, ?kb) ?vs1 = (m1, 2 * ?q, dp1)"
    and inv: "enc_inv out ?kb (streamvbyte_compress_bound ?N) m1 (2 * ?q) dp1
          (key_block (map key ?vs1)) (data_block len ?vs1)"
    by blast
  have chunks: "(if ?N \<ge> 8 then x64_chunk_loop E8 vfilt inp (8 * ?q) 0 out 0 ?kb else (out, 0, ?kb, 0))
      = (m1, 2 * ?q, dp1, 8 * ?q)"
  proof (cases "?N \<ge> 8")
    case True
    then obtain n where n: "?q = Suc n" by (cases ?q) auto
    have e: "8 * ?q = 0 + 8 * Suc n" using n by simp
    from x64_chunk_loop_fold[of vfilt f, OF vf e q, of E8 out 0 ?kb]
    show ?thesis using True F unfolding n by simp
  next
    case False
    then have z: "?q = 0" by simp
    show ?thesis using False F unfolding z by simp
  qed
  have tail: "x64_tail_loop E1 f inp (8 * ?q) ?r 0 m1 0 dp1 = x64_tail_fold E1 0 (m1, 0, dp1) ?vs2"
    if r: "?r \<noteq> 0"
  proof -
    obtain n where n: "?r - 0 = Suc n" using r by (cases ?r) auto
    have b: "8 * ?q + ?r \<le> ?N" by presburger
    have "take (Suc n) (drop (8 * ?q + 0) inp) = drop (8 * ?q) inp" using n l2 by simp
    with x64_tail_loop_fold[OF n b, of E1 f m1 0 dp1] show ?thesis by simp
  qed
  from x64_finish[OF s1 fk inv l1 l2] have
    "encoded out ?N (svb_stream key len (map f inp))
     (if ?r \<noteq> 0
      then (case x64_tail_fold E1 0 (m1, 0, dp1) ?vs2 of
              (m, keys, dp) \<Rightarrow> (x64_store_tail_keys m (2 * ?q) keys ?r, dp))
      else (m1, dp1))"
    unfolding vs .
  moreover have "x64_enc E8 E1 vfilt f inp out =
     (if ?r \<noteq> 0
      then (case x64_tail_fold E1 0 (m1, 0, dp1) ?vs2 of
              (m, keys, dp) \<Rightarrow> (x64_store_tail_keys m (2 * ?q) keys ?r, dp))
      else (m1, dp1))"
    unfolding x64_enc_def Let_def count_and_not_7 count_and_7 chunks
    by (simp add: tail split: prod.splits)
  ultimately show ?thesis by simp
qed

lemma x64_delta_enc_encoded:
  assumes s8: "enc8_spec key len E8" and s1: "enc1_spec key len E1" and fk: "fmt_ok key len"
    and vf: "\<And>a b c d p0 p1 p2 p. vfilt (of_epi32 [a, b, c, d]) (of_epi32 [p0, p1, p2, p])
       = of_epi32 [f a p, f b a, f c b, f d c]"
  shows "encoded out (length inp) (svb_stream key len (deltas f previous inp))
           (x64_delta_enc E8 E1 vfilt f (of_epi32 [u0, u1, u2, u3]) inp out previous)"
proof -
  let ?N = "length inp"
  let ?q = "?N div 8" and ?r = "?N mod 8"
  let ?kb = "svb_key_block_len ?N"
  let ?p = "last (previous # take (8 * ?q) inp)"
  let ?vs1 = "deltas f previous (take (8 * ?q) inp)" and ?vs2 = "deltas f ?p (drop (8 * ?q) inp)"
  have q: "8 * ?q \<le> ?N" by presburger
  have l1: "length ?vs1 = 8 * ?q" using q by (simp add: length_deltas)
  have l2: "length ?vs2 = ?r" by (simp add: length_deltas) presburger
  have vs: "?vs1 @ ?vs2 = deltas f previous inp"
    using deltas_append[of f previous "take (8 * ?q) inp" "drop (8 * ?q) inp"]
    by (simp only: append_take_drop_id)
  from x64_chunks_run[OF s8 fk l1 q]
  obtain m1 dp1 where F: "x64_chunk_fold E8 (out, 0, ?kb) ?vs1 = (m1, 2 * ?q, dp1)"
    and inv: "enc_inv out ?kb (streamvbyte_compress_bound ?N) m1 (2 * ?q) dp1
          (key_block (map key ?vs1)) (data_block len ?vs1)"
    by blast
  have chunks: "(if ?N \<ge> 8
       then (let prev = of_epi32 [u0, u1, u2, u3];
                 prev = mm_insert_epi32 prev previous 3;
                 (m, key_ptr, data_ptr, i, prev) =
                    x64_delta_chunk_loop E8 vfilt inp (8 * ?q) 0 prev out 0 ?kb;
                 previous = mm_extract_epi32 prev 3
             in (m, key_ptr, data_ptr, i, previous))
       else (out, 0, ?kb, 0, previous))
      = (m1, 2 * ?q, dp1, 8 * ?q, ?p)"
  proof (cases "?N \<ge> 8")
    case True
    then obtain n where n: "?q = Suc n" by (cases ?q) auto
    have e: "8 * ?q = 0 + 8 * Suc n" using n by simp
    have lt: "length (take (8 * ?q) inp) = 8 * Suc n" using q n by simp
    have "take (8 * ?q) inp \<noteq> []" using lt by auto
    then have "?p = last (take (8 * ?q) inp)" by simp
    also have "\<dots> = take (8 * ?q) inp ! (length (take (8 * ?q) inp) - 1)"
      using \<open>take (8 * ?q) inp \<noteq> []\<close> by (rule last_conv_nth)
    also have "\<dots> = take (8 * ?q) inp ! (8 * ?q - 1)"
    proof -
      have "length (take (8 * ?q) inp) = 8 * ?q" using q by simp
      then show ?thesis by (simp only:)
    qed
    also have "\<dots> = inp ! (8 * ?q - 1)" using n by simp
    finally have p: "?p = inp ! (8 * ?q - 1)" .
    have "8 * ?q - 4 + 3 = 8 * ?q - 1" using n by simp
    then have x: "mm_extract_epi32 (mm_loadu_si128_u32 inp (8 * ?q - 4)) 3 = inp ! (8 * ?q - 1)"
      by (simp add: mm_loadu_si128_u32_def extract_lane3)
    from x64_delta_chunk_loop_fold[of vfilt f, OF vf e q, of E8 u0 u1 u2 previous out 0 ?kb]
    have "x64_delta_chunk_loop E8 vfilt inp (8 * ?q) 0 (of_epi32 [u0, u1, u2, previous]) out 0 ?kb
        = (m1, 2 * ?q, dp1, 8 * ?q, mm_loadu_si128_u32 inp (8 * ?q - 4))"
      using F unfolding n by simp
    then have "(let prev = of_epi32 [u0, u1, u2, u3];
                 prev = mm_insert_epi32 prev previous 3;
                 (m, key_ptr, data_ptr, i, prev) =
                    x64_delta_chunk_loop E8 vfilt inp (8 * ?q) 0 prev out 0 ?kb;
                 previous = mm_extract_epi32 prev 3
             in (m, key_ptr, data_ptr, i, previous)) = (m1, 2 * ?q, dp1, 8 * ?q, inp ! (8 * ?q - 1))"
      by (simp add: insert_lane3 x)
    then show ?thesis using True unfolding p by (simp only: if_True)
  next
    case False
    then have z: "?q = 0" by simp
    show ?thesis using False F unfolding z by simp
  qed
  have tail: "x64_delta_tail_loop E1 f inp (8 * ?q) ?r 0 m1 0 dp1 ?p =
      (case x64_tail_fold E1 0 (m1, 0, dp1) ?vs2 of
         (m', keys', dp') \<Rightarrow> (m', keys', dp', inp ! (8 * ?q + ?r - 1)))"
    if r: "?r \<noteq> 0"
  proof -
    obtain n where n: "?r - 0 = Suc n" using r by (cases ?r) auto
    have b: "8 * ?q + ?r \<le> ?N" by presburger
    have "length (drop (8 * ?q) inp) = ?r" by simp presburger
    then have "take (Suc n) (drop (8 * ?q + 0) inp) = drop (8 * ?q) inp" using n by simp
    with x64_delta_tail_loop_fold[OF n b, of E1 f m1 0 dp1 ?p] show ?thesis by simp
  qed
  obtain m2 k2 dp2 where T: "x64_tail_fold E1 0 (m1, 0, dp1) ?vs2 = (m2, k2, dp2)"
    by (rule prod_cases3)
  have tail': "x64_delta_tail_loop E1 f inp (8 * ?q) ?r 0 m1 0 dp1 ?p = (m2, k2, dp2, inp ! (8 * ?q + ?r - 1))"
    if r: "?r \<noteq> 0"
    by (simp only: tail[OF r] T prod.case)
  from x64_finish[OF s1 fk inv l1 l2] have
    "encoded out ?N (svb_stream key len (deltas f previous inp))
     (if ?r \<noteq> 0 then (x64_store_tail_keys m2 (2 * ?q) k2 ?r, dp2) else (m1, dp1))"
    unfolding vs T by (simp only: prod.case)
  moreover have "x64_delta_enc E8 E1 vfilt f (of_epi32 [u0, u1, u2, u3]) inp out previous =
     (if ?r \<noteq> 0 then (x64_store_tail_keys m2 (2 * ?q) k2 ?r, dp2) else (m1, dp1))"
  proof (cases "?r = 0")
    case True
    show ?thesis
      unfolding x64_delta_enc_def Let_def count_and_not_7 count_and_7
      unfolding chunks[unfolded Let_def]
      by (simp only: prod.case True simp_thms if_False)
  next
    case False
    show ?thesis
      unfolding x64_delta_enc_def Let_def count_and_not_7 count_and_7
      unfolding chunks[unfolded Let_def]
      by (simp only: prod.case tail'[OF False] False simp_thms if_True)
  qed
  ultimately show ?thesis by (simp only:)
qed

section \<open>The sixteen encoders without transpose\<close>

lemma vf_id: "(\<lambda>v. v) (of_epi32 [a, b, c, d]) = of_epi32 [(\<lambda>v. v) a, (\<lambda>v. v) b, (\<lambda>v. v) c, (\<lambda>v. v) d]"
  by simp

lemma svb1_enc_x64_encoded:
  "encoded out (length inp) (svb_stream svb1_key_spec svb1_len_spec inp) (svb1_enc_x64 inp out)"
  using x64_enc_encoded[OF enc8_spec_svb1 enc1_spec_svb1 fmt_ok_svb1, of "\<lambda>v. v" "\<lambda>v. v" out inp]
  by (simp add: svb1_enc_x64_def)

lemma svb1z_enc_x64_encoded:
  "encoded out (length inp) (svb_stream svb1_key_spec svb1_len_spec (map zigzag_encode_32 inp))
     (svb1z_enc_x64 inp out)"
  unfolding svb1z_enc_x64_def
  by (rule x64_enc_encoded[where vfilt = mm_zigzag_encode_epi32 and f = zigzag_encode_32,
      OF enc8_spec_svb1 enc1_spec_svb1 fmt_ok_svb1 mm_zigzag_lanes])

lemma svb0_enc_x64_encoded:
  "encoded out (length inp) (svb_stream svb0_key_spec svb0_len_spec inp) (svb0_enc_x64 inp out)"
  using x64_enc_encoded[OF enc8_spec_svb0 enc1_spec_svb0 fmt_ok_svb0, of "\<lambda>v. v" "\<lambda>v. v" out inp]
  by (simp add: svb0_enc_x64_def)

lemma svb0z_enc_x64_encoded:
  "encoded out (length inp) (svb_stream svb0_key_spec svb0_len_spec (map zigzag_encode_32 inp))
     (svb0z_enc_x64 inp out)"
  unfolding svb0z_enc_x64_def
  by (rule x64_enc_encoded[where vfilt = mm_zigzag_encode_epi32 and f = zigzag_encode_32,
      OF enc8_spec_svb0 enc1_spec_svb0 fmt_ok_svb0 mm_zigzag_lanes])

lemma svb1d_enc_x64_encoded:
  "encoded out (length inp) (svb_stream svb1_key_spec svb1_len_spec (deltas delta_encode_32 previous inp))
     (svb1d_enc_x64 (of_epi32 [u0, u1, u2, u3]) inp out previous)"
  unfolding svb1d_enc_x64_def
  by (rule x64_delta_enc_encoded[where vfilt = mm_delta_encode_epi32 and f = delta_encode_32,
      OF enc8_spec_svb1 enc1_spec_svb1 fmt_ok_svb1 mm_delta_lanes])

lemma svb1dz_enc_x64_encoded:
  "encoded out (length inp)
     (svb_stream svb1_key_spec svb1_len_spec (deltas delta_zigzag_encode_32 previous inp))
     (svb1dz_enc_x64 (of_epi32 [u0, u1, u2, u3]) inp out previous)"
  unfolding svb1dz_enc_x64_def
  by (rule x64_delta_enc_encoded[where vfilt = mm_delta_zigzag_encode_epi32 and f = delta_zigzag_encode_32,
      OF enc8_spec_svb1 enc1_spec_svb1 fmt_ok_svb1 mm_delta_zigzag_lanes])

lemma svb0d_enc_x64_encoded:
  "encoded out (length inp) (svb_stream svb0_key_spec svb0_len_spec (deltas delta_encode_32 previous inp))
     (svb0d_enc_x64 (of_epi32 [u0, u1, u2, u3]) inp out previous)"
  unfolding svb0d_enc_x64_def
  by (rule x64_delta_enc_encoded[where vfilt = mm_delta_encode_epi32 and f = delta_encode_32,
      OF enc8_spec_svb0 enc1_spec_svb0 fmt_ok_svb0 mm_delta_lanes])

lemma svb0dz_enc_x64_encoded:
  "encoded out (length inp)
     (svb_stream svb0_key_spec svb0_len_spec (deltas delta_zigzag_encode_32 previous inp))
     (svb0dz_enc_x64 (of_epi32 [u0, u1, u2, u3]) inp out previous)"
  unfolding svb0dz_enc_x64_def
  by (rule x64_delta_enc_encoded[where vfilt = mm_delta_zigzag_encode_epi32 and f = delta_zigzag_encode_32,
      OF enc8_spec_svb0 enc1_spec_svb0 fmt_ok_svb0 mm_delta_zigzag_lanes])

lemma svb1_enc_generic_encoded:
  "encoded out (length inp) (svb_stream svb1_key_spec svb1_len_spec inp) (svb1_enc_generic inp out)"
  using generic_enc_encoded[OF genc1_spec_svb1 fmt_ok_svb1, of out inp "\<lambda>v. v"]
  by (simp add: svb1_enc_generic_def)

lemma svb1z_enc_generic_encoded:
  "encoded out (length inp) (svb_stream svb1_key_spec svb1_len_spec (map zigzag_encode_32 inp))
     (svb1z_enc_generic inp out)"
  unfolding svb1z_enc_generic_def
  by (rule generic_enc_encoded[OF genc1_spec_svb1 fmt_ok_svb1])

lemma svb0_enc_generic_encoded:
  "encoded out (length inp) (svb_stream svb0_key_spec svb0_len_spec inp) (svb0_enc_generic inp out)"
  using generic_enc_encoded[OF genc1_spec_svb0 fmt_ok_svb0, of out inp "\<lambda>v. v"]
  by (simp add: svb0_enc_generic_def)

lemma svb0z_enc_generic_encoded:
  "encoded out (length inp) (svb_stream svb0_key_spec svb0_len_spec (map zigzag_encode_32 inp))
     (svb0z_enc_generic inp out)"
  unfolding svb0z_enc_generic_def
  by (rule generic_enc_encoded[OF genc1_spec_svb0 fmt_ok_svb0])

lemma svb1d_enc_generic_encoded:
  "encoded out (length inp) (svb_stream svb1_key_spec svb1_len_spec (deltas delta_encode_32 previous inp))
     (svb1d_enc_generic inp out previous)"
  unfolding svb1d_enc_generic_def
  by (rule generic_delta_enc_encoded[OF genc1_spec_svb1 fmt_ok_svb1])

lemma svb1dz_enc_generic_encoded:
  "encoded out (length inp)
     (svb_stream svb1_key_spec svb1_len_spec (deltas delta_zigzag_encode_32 previous inp))
     (svb1dz_enc_generic inp out previous)"
  unfolding svb1dz_enc_generic_def
  by (rule generic_delta_enc_encoded[OF genc1_spec_svb1 fmt_ok_svb1])

lemma svb0d_enc_generic_encoded:
  "encoded out (length inp) (svb_stream svb0_key_spec svb0_len_spec (deltas delta_encode_32 previous inp))
     (svb0d_enc_generic inp out previous)"
  unfolding svb0d_enc_generic_def
  by (rule generic_delta_enc_encoded[OF genc1_spec_svb0 fmt_ok_svb0])

lemma svb0dz_enc_generic_encoded:
  "encoded out (length inp)
     (svb_stream svb0_key_spec svb0_len_spec (deltas delta_zigzag_encode_32 previous inp))
     (svb0dz_enc_generic inp out previous)"
  unfolding svb0dz_enc_generic_def
  by (rule generic_delta_enc_encoded[OF genc1_spec_svb0 fmt_ok_svb0])

section \<open>Two streams written out\<close>

lemma encoded_bytes:
  "encoded out N s r \<Longrightarrow> length s = n \<Longrightarrow> snd r = n \<and> load_bytes (fst r) 0 n = s"
  by (auto simp add: encoded_def)

lemma svb1_example_stream:
  "svb_stream svb1_key_spec svb1_len_spec [0, 1, 255, 256, 65535, 65536, 16777215, 16777216]
     = [0x40, 0xE9, 0x00, 0x01, 0xFF, 0x00, 0x01, 0xFF, 0xFF, 0x00, 0x00, 0x01, 0xFF, 0xFF, 0xFF,
        0x00, 0x00, 0x00, 0x01]"
  by code_simp

lemma svb0_example_stream:
  "svb_stream svb0_key_spec svb0_len_spec [0, 1, 255, 256, 65535, 65536, 16777215]
     = [0x94, 0x3E, 0x01, 0xFF, 0x00, 0x01, 0xFF, 0xFF, 0x00, 0x00, 0x01, 0x00, 0xFF, 0xFF, 0xFF, 0x00]"
  by code_simp

lemma svb0_example_x64:
  "snd (svb0_enc_x64 [0, 1, 255, 256, 65535, 65536, 16777215] out) = 16
   \<and> load_bytes (fst (svb0_enc_x64 [0, 1, 255, 256, 65535, 65536, 16777215] out)) 0 16
       = [0x94, 0x3E, 0x01, 0xFF, 0x00, 0x01, 0xFF, 0xFF, 0x00, 0x00, 0x01, 0x00, 0xFF, 0xFF, 0xFF, 0x00]"
  by (rule encoded_bytes[OF svb0_enc_x64_encoded[of out "[0, 1, 255, 256, 65535, 65536, 16777215]",
          unfolded svb0_example_stream]]) simp

lemma svb0_example_generic:
  "snd (svb0_enc_generic [0, 1, 255, 256, 65535, 65536, 16777215] out) = 16
   \<and> load_bytes (fst (svb0_enc_generic [0, 1, 255, 256, 65535, 65536, 16777215] out)) 0 16
       = [0x94, 0x3E, 0x01, 0xFF, 0x00, 0x01, 0xFF, 0xFF, 0x00, 0x00, 0x01, 0x00, 0xFF, 0xFF, 0xFF, 0x00]"
  by (rule encoded_bytes[OF svb0_enc_generic_encoded[of out "[0, 1, 255, 256, 65535, 65536, 16777215]",
          unfolded svb0_example_stream]]) simp

text \<open>
  C7.  \<open>svb1_enc\<close>, in the SSE4.1 build and in the portable build, applied to
  the 8-element array 0, 1, 255, 256, 65535, 65536, 16777215, 16777216 and to
  any output buffer, returns the offset 19 and leaves in the first 19 bytes of
  the buffer the key bytes 0x40, 0xE9 followed by the data bytes
  00 01 FF 00 01 FF FF 00 00 01 FF FF FF 00 00 00 01.
\<close>

theorem svb1_concrete_stream:
  "snd (svb1_enc_x64 [0, 1, 255, 256, 65535, 65536, 16777215, 16777216] out) = 19
   \<and> load_bytes (fst (svb1_enc_x64 [0, 1, 255, 256, 65535, 65536, 16777215, 16777216] out)) 0 19
       = [0x40, 0xE9, 0x00, 0x01, 0xFF, 0x00, 0x01, 0xFF, 0xFF, 0x00, 0x00, 0x01, 0xFF, 0xFF, 0xFF,
          0x00, 0x00, 0x00, 0x01]
   \<and> snd (svb1_enc_generic [0, 1, 255, 256, 65535, 65536, 16777215, 16777216] out) = 19
   \<and> load_bytes (fst (svb1_enc_generic [0, 1, 255, 256, 65535, 65536, 16777215, 16777216] out)) 0 19
       = [0x40, 0xE9, 0x00, 0x01, 0xFF, 0x00, 0x01, 0xFF, 0xFF, 0x00, 0x00, 0x01, 0xFF, 0xFF, 0xFF,
          0x00, 0x00, 0x00, 0x01]"
proof -
  let ?xs = "[0, 1, 255, 256, 65535, 65536, 16777215, 16777216] :: u32 list"
  let ?s = "[0x40, 0xE9, 0x00, 0x01, 0xFF, 0x00, 0x01, 0xFF, 0xFF, 0x00, 0x00, 0x01, 0xFF, 0xFF, 0xFF,
          0x00, 0x00, 0x00, 0x01] :: byte list"
  have l: "length ?s = 19" by simp
  have x: "snd (svb1_enc_x64 ?xs out) = 19 \<and> load_bytes (fst (svb1_enc_x64 ?xs out)) 0 19 = ?s"
    using svb1_enc_x64_encoded[of out ?xs, unfolded svb1_example_stream] l by (rule encoded_bytes)
  have g: "snd (svb1_enc_generic ?xs out) = 19 \<and> load_bytes (fst (svb1_enc_generic ?xs out)) 0 19 = ?s"
    using svb1_enc_generic_encoded[of out ?xs, unfolded svb1_example_stream] l by (rule encoded_bytes)
  from x g show ?thesis by (simp only: simp_thms)
qed

text \<open>
  C8, as the code has it.  \<open>svb0_enc\<close>, in the SSE4.1 build and in the portable
  build, applied to the 7-element array 0, 1, 255, 256, 65535, 65536, 16777215
  and to any output buffer, returns the offset 16 and leaves in the first 16
  bytes of the buffer the key bytes 0x94, 0x3E followed by the data bytes
  01 FF 00 01 FF FF 00 00 01 00 FF FF FF 00.  The keys 0, 1, 1, 2 of the first
  four elements are packed from bit 0 upwards, which gives 0x94, and the keys
  2, 3, 3 of the last three give 0x3E.
\<close>

theorem svb0_concrete_stream:
  "snd (svb0_enc_x64 [0, 1, 255, 256, 65535, 65536, 16777215] out) = 16
   \<and> load_bytes (fst (svb0_enc_x64 [0, 1, 255, 256, 65535, 65536, 16777215] out)) 0 16
       = [0x94, 0x3E, 0x01, 0xFF, 0x00, 0x01, 0xFF, 0xFF, 0x00, 0x00, 0x01, 0x00, 0xFF, 0xFF, 0xFF, 0x00]
   \<and> snd (svb0_enc_generic [0, 1, 255, 256, 65535, 65536, 16777215] out) = 16
   \<and> load_bytes (fst (svb0_enc_generic [0, 1, 255, 256, 65535, 65536, 16777215] out)) 0 16
       = [0x94, 0x3E, 0x01, 0xFF, 0x00, 0x01, 0xFF, 0xFF, 0x00, 0x00, 0x01, 0x00, 0xFF, 0xFF, 0xFF, 0x00]"
  using svb0_example_x64[of out] svb0_example_generic[of out] by simp

text \<open>
  The key bytes 0x69, 0x0F are not what either build writes: on a buffer
  filled with 0xFE, the first two bytes after the call differ from them.
\<close>

theorem svb0_key_bytes_counterexample:
  "load_bytes (fst (svb0_enc_x64 [0, 1, 255, 256, 65535, 65536, 16777215] (\<lambda>_. 0xFE))) 0 2 \<noteq> [0x69, 0x0F]
   \<and> load_bytes (fst (svb0_enc_generic [0, 1, 255, 256, 65535, 65536, 16777215] (\<lambda>_. 0xFE))) 0 2
       \<noteq> [0x69, 0x0F]"
proof -
  have t: "load_bytes m 0 2 = take 2 (load_bytes m 0 16)" for m :: mem
    by (simp add: load_bytes_def take_map)
  show ?thesis
    unfolding t[of "fst (svb0_enc_x64 _ _)"] t[of "fst (svb0_enc_generic _ _)"]
    using svb0_example_x64[of "\<lambda>_. 0xFE"] svb0_example_generic[of "\<lambda>_. 0xFE"] by simp
qed

section \<open>Key derivation of the two formats\<close>





text \<open>
  Claim C5, as amended.  For every 32-bit value \<open>v\<close> both SVB1 scalar encode
  steps yield key 0 if \<open>v \<le> 0xFF\<close>, 1 if \<open>0xFF < v \<le> 0xFFFF\<close>, 2 if
  \<open>0xFFFF < v \<le> 0xFFFFFF\<close> and 3 otherwise (the carry-propagation bit trick of
  \<open>_svb1_encode1_x64\<close> computes exactly this key), and the callers advance the
  data cursor by \<open>key + 1\<close>.  \<open>_svb1_encode1_x64\<close> stores the four bytes of
  \<open>v\<close>, little-endian, at the cursor and writes nothing else.
  \<open>_svb1_encode1_generic\<close> stores bytes 0 and 1 of \<open>v\<close> at the cursor always,
  bytes 2 and 3 only when \<open>v > 0xFFFF\<close>, and writes nothing else.  After
  either step the \<open>key + 1\<close> bytes at the cursor are the \<open>key + 1\<close> low-order
  bytes of \<open>v\<close>, little-endian.
\<close>

theorem svb1_scalar_key_derivation:
  "(svb1_key_spec v = 0) = (v \<le> 0xFF)
   \<and> (svb1_key_spec v = 1) = (0xFF < v \<and> v \<le> 0xFFFF)
   \<and> (svb1_key_spec v = 2) = (0xFFFF < v \<and> v \<le> 0xFFFFFF)
   \<and> (svb1_key_spec v = 3) = (0xFFFFFF < v)
   \<and> svb1_encode1_x64 m dst v = (store_bytes m dst (le_bytes32 v), of_nat (svb1_key_spec v))
   \<and> svb1_encode1_generic m dst v
       = (store_bytes m dst (if v > 0xFFFF then le_bytes32 v else [ucast v, ucast (drop_bit 8 v)]),
          of_nat (svb1_key_spec v))
   \<and> load_bytes (fst (svb1_encode1_x64 m dst v)) dst 4 = le_bytes32 v
   \<and> load_bytes (fst (svb1_encode1_x64 m dst v)) dst (svb1_key_spec v + 1)
        = take (svb1_key_spec v + 1) (le_bytes32 v)
   \<and> load_bytes (fst (svb1_encode1_generic m dst v)) dst (svb1_key_spec v + 1)
        = take (svb1_key_spec v + 1) (le_bytes32 v)
   \<and> svb1_encode1_step m keys dst v shift
       = (store_bytes m dst (le_bytes32 v), keys OR push_bit shift (of_nat (svb1_key_spec v)),
          dst + (svb1_key_spec v + 1))
   \<and> svb1_generic_step m dst v
       = (store_bytes m dst (if v > 0xFFFF then le_bytes32 v else [ucast v, ucast (drop_bit 8 v)]),
          of_nat (svb1_key_spec v), svb1_key_spec v + 1)
   \<and> fst (snd (snd (generic_body svb1_generic_step (m, kp, dst, gkeys, gshift) v)))
       = dst + (svb1_key_spec v + 1)"
proof -
  have c: "(v > 0xFFFF) = (\<not> unat v < 65536)" by (auto simp add: word_less_nat_alt)
  have t2: "take 2 (le_bytes32 v) = [ucast v, ucast (drop_bit 8 v)]" by (simp add: le_bytes32_def)
  have gm: "fst (svb1_encode1_generic m dst v)
      = store_bytes m dst (if v > 0xFFFF then le_bytes32 v else [ucast v, ucast (drop_bit 8 v)])"
    unfolding svb1_generic_mem c by (simp add: t2)
  have gs: "svb1_generic_step m dst v
       = (store_bytes m dst (if v > 0xFFFF then le_bytes32 v else [ucast v, ucast (drop_bit 8 v)]),
          of_nat (svb1_key_spec v), svb1_key_spec v + 1)"
  proof -
    have u: "unat (of_nat (svb1_key_spec v) :: byte) = svb1_key_spec v"
      using svb1_generic_code_unat[of m dst v] svb1_generic_code[of m dst v] by simp
    show ?thesis
      using gm svb1_generic_code[of m dst v] u
      by (cases "svb1_encode1_generic m dst v") (simp add: svb1_generic_step_def Let_def)
  qed
  have k: "(svb1_key_spec v = 0) = (v \<le> 0xFF)"
    "(svb1_key_spec v = 1) = (0xFF < v \<and> v \<le> 0xFFFF)"
    "(svb1_key_spec v = 2) = (0xFFFF < v \<and> v \<le> 0xFFFFFF)"
    "(svb1_key_spec v = 3) = (0xFFFFFF < v)"
    by (auto simp add: svb1_key_spec_def word_le_nat_alt word_less_nat_alt)
  have x: "svb1_encode1_x64 m dst v = (store_bytes m dst (le_bytes32 v), of_nat (svb1_key_spec v))"
    using svb1_x64_code[of m dst v] svb1_x64_mem[of m dst v]
    by (simp add: prod_eq_iff svb_storeu_u32_def)
  have g: "svb1_encode1_generic m dst v
       = (store_bytes m dst (if v > 0xFFFF then le_bytes32 v else [ucast v, ucast (drop_bit 8 v)]),
          of_nat (svb1_key_spec v))"
    using gm svb1_generic_code[of m dst v] by (simp add: prod_eq_iff)
  have xs: "svb1_encode1_step m keys dst v shift
       = (store_bytes m dst (le_bytes32 v), keys OR push_bit shift (of_nat (svb1_key_spec v)),
          dst + (svb1_key_spec v + 1))"
    using enc1_spec_svb1 by (simp add: enc1_spec_def svb1_len_spec_def)
  have gb: "fst (snd (snd (generic_body svb1_generic_step (m, kp, dst, gkeys, gshift) v)))
       = dst + (svb1_key_spec v + 1)"
    by (simp add: generic_body_def gs generic_put_key_def Let_def)
  show ?thesis
    by (intro conjI k x g svb1_x64_bytes4 svb1_x64_bytes svb1_generic_bytes xs gs gb)
qed

text \<open>
  Claim C5 as it is written fails for the generic step: for \<open>v = 1\<close> it
  writes \<open>dst[0]\<close> and \<open>dst[1]\<close> only, so the four bytes at the cursor are not
  the four bytes of \<open>v\<close> when the buffer held something else before.
\<close>

theorem svb1_generic_four_bytes_counterexample:
  "load_bytes (fst (svb1_encode1_generic (\<lambda>_. 0xFE) 0 1)) 0 4 \<noteq> le_bytes32 1"
  by (simp add: svb1_encode1_generic_def Let_def load_bytes_simps le_bytes32_def)




end
